theory Spec2Isabelle
  imports Main
begin

section \<open>Values, callbacks and thrown exceptions\<close>

text \<open>
  The state container of \<^verbatim>\<open>src/store.ts\<close> is generic in the type \<open>'t\<close> of the value it
  holds. A value stands for a JavaScript value up to \<^verbatim>\<open>Object.is\<close>: a primitive, or the
  identity of an object. HOL equality on \<open>'t\<close> and on selected values \<open>'r\<close> is therefore
  the model of \<^verbatim>\<open>Object.is\<close>.
  Values are not changed in place: \<^verbatim>\<open>read\<close> and \<^verbatim>\<open>snapshot\<close> hand out an alias of
  the held value, and a caller that wrote through it would break the store's contract.

  Nothing in the store catches or throws by itself: every exception comes out of a function
  the caller passed in. A reducer is a pure function that either returns the next value or
  throws; the thrown value is a string.
\<close>

type_synonym exn = string

type_synonym ('t, 'p) Reducer = "'t \<Rightarrow> 'p \<Rightarrow> exn + 't"

type_synonym 't Compute = "'t \<Rightarrow> exn + 't"

type_synonym ('t, 'r) Selector = "'t \<Rightarrow> 'r"

type_synonym 'r Equality = "'r \<Rightarrow> 'r \<Rightarrow> bool"

text \<open>
  What can be observed of the listeners from outside is recorded in a trace:
  \<open>Notified n\<close> when the \<^verbatim>\<open>notify\<close> closure of subscription \<open>n\<close> is called by a
  notification pass, \<open>Fired n v\<close> when its \<^verbatim>\<open>subscriber\<close> is called with \<open>v\<close>.
\<close>

datatype 'r event = Notified nat | Fired nat 'r

text \<open>
  A subscriber is an arbitrary function of the caller. It is modelled by the unsubscribe
  handles it calls before it returns, which may depend on the value it receives and on
  everything observed so far. Subscribers, selectors and equality functions return
  normally, and a subscriber does not mutate the store or subscribe from inside a
  notification pass.
\<close>

type_synonym 'r Subscriber = "'r event list \<Rightarrow> 'r \<Rightarrow> nat list"

record 'r SubscribeOptions =
  opt_eq :: "'r Equality option"
  fireImmediately :: bool

text \<open>
  The closure \<^verbatim>\<open>notify\<close> built by \<^verbatim>\<open>subscribe\<close> captures \<^verbatim>\<open>selector\<close>, \<^verbatim>\<open>eq\<close>,
  \<^verbatim>\<open>subscriber\<close> and the mutable \<^verbatim>\<open>prev\<close>.
\<close>

record ('t, 'r) listener =
  selector :: "('t, 'r) Selector"
  eq :: "'r Equality"
  prev :: 'r
  subscriber :: "'r Subscriber"

text \<open>
  The state of one store. \<open>closures\<close> is the heap of \<^verbatim>\<open>notify\<close> closures ever created,
  a closure's position being its identity and the handle of its \<^verbatim>\<open>unsubscribe\<close>;
  \<open>listeners\<close> holds the identities currently registered, in insertion order (the array
  of the closure-based \<^verbatim>\<open>createStore\<close>, the \<^verbatim>\<open>Set\<close> of \<^verbatim>\<open>StoreImpl\<close>).
  \<open>version\<close> is a JavaScript number that only ever grows by 1 from 0; it is a natural
  number here, which is exact below \<open>2 ^ 53\<close> mutations.
\<close>

record ('t, 'r) store =
  current :: 't
  version :: nat
  listeners :: "nat list"
  closures :: "('t, 'r) listener list"
  trace :: "'r event list"

section \<open>What both stores share: read, unsubscribe, the notify closure\<close>

definition read :: "('t, 'r) store \<Rightarrow> 't" where
  "read st = current st"

definition snapshot :: "('t, 'r) store \<Rightarrow> 't" where
  "snapshot st = current st"

text \<open>
  \<^verbatim>\<open>idx = listeners.indexOf(notify); if (idx >= 0) listeners.splice(idx, 1)\<close> in the
  closure-based store, and \<^verbatim>\<open>if (has) { next = new Set(listeners); next.delete(notify);
  this.listeners = next }\<close> in \<^verbatim>\<open>StoreImpl\<close>: either way the registered identities are
  the old ones without \<open>n\<close>. The two differ in whether a running pass sees the change, which
  is the difference between \<open>notifyListeners\<close> and \<open>StoreImpl_notifyListeners\<close> below.
\<close>

definition unsubscribe :: "nat \<Rightarrow> ('t, 'r) store \<Rightarrow> ('t, 'r) store" where
  "unsubscribe n st =
     (if n \<in> set (listeners st) then st\<lparr>listeners := remove1 n (listeners st)\<rparr> else st)"

text \<open>\<^verbatim>\<open>subscriber(v)\<close> for subscription \<open>n\<close>: the call is observed, then its handles run.\<close>

definition call_subscriber :: "nat \<Rightarrow> 'r \<Rightarrow> ('t, 'r) store \<Rightarrow> ('t, 'r) store" where
  "call_subscriber n v st =
     fold unsubscribe (subscriber (closures st ! n) (trace st) v)
       (st\<lparr>trace := trace st @ [Fired n v]\<rparr>)"

text \<open>
  \<^verbatim>\<open>const notify = () => { const next = selector(current);
  if (!eq(prev, next)) { prev = next; subscriber(next) } }\<close>
\<close>

definition notify :: "nat \<Rightarrow> ('t, 'r) store \<Rightarrow> ('t, 'r) store" where
  "notify n st =
     (let c = closures st ! n;
          nxt = selector c (current st);
          st0 = st\<lparr>trace := trace st @ [Notified n]\<rparr>
      in if \<not> eq c (prev c) nxt
         then call_subscriber n nxt (st0\<lparr>closures := (closures st0)[n := c\<lparr>prev := nxt\<rparr>]\<rparr>)
         else st0)"

text \<open>
  \<^verbatim>\<open>subscribe(selector, subscriber, options)\<close>, the same in both stores up to how the
  new closure is added: \<^verbatim>\<open>eq = options?.eq ?? Object.is\<close>, \<^verbatim>\<open>prev = selector(current)\<close>,
  the immediate call when asked for, then the registration. It returns the handle.
\<close>

definition subscribe ::
  "('t, 'r) Selector \<Rightarrow> 'r Subscriber \<Rightarrow> 'r SubscribeOptions option \<Rightarrow> ('t, 'r) store
    \<Rightarrow> nat \<times> ('t, 'r) store" where
  "subscribe sel sub options st =
     (let e = (case options of None \<Rightarrow> (=)
               | Some opts \<Rightarrow> (case opt_eq opts of None \<Rightarrow> (=) | Some f \<Rightarrow> f));
          p = sel (current st);
          n = length (closures st);
          st1 = st\<lparr>closures := closures st @ [\<lparr>selector = sel, eq = e, prev = p, subscriber = sub\<rparr>]\<rparr>;
          st2 = (if (case options of None \<Rightarrow> False | Some opts \<Rightarrow> fireImmediately opts)
                 then call_subscriber n p st1 else st1)
      in (n, st2\<lparr>listeners := listeners st2 @ [n]\<rparr>))"

section \<open>The batch callback\<close>

text \<open>
  \<^verbatim>\<open>batch(apply)\<close> hands the callback an \<^verbatim>\<open>applier\<close>; all the callback can do to the
  store is call it. A callback is therefore the tree of its calls: it returns, it throws, or
  it calls \<^verbatim>\<open>applier(reducer, payload)\<close> and goes on, one way when the call returns and
  another (its \<^verbatim>\<open>catch\<close> block; \<open>Raise\<close> when it has none) when the reducer throws.
\<close>

datatype ('t, 'p) callback =
    Return
  | Raise exn
  | Apply "('t, 'p) Reducer" 'p "('t, 'p) callback" "exn \<Rightarrow> ('t, 'p) callback"

text \<open>
  Running the callback on the local \<^verbatim>\<open>next\<close>:
  \<^verbatim>\<open>next = reducer(next, payload)\<close> assigns only when the reducer returns.
\<close>

primrec run_callback :: "('t, 'p) callback \<Rightarrow> 't \<Rightarrow> exn + 't" where
  "run_callback Return nxt = Inr nxt"
| "run_callback (Raise e) nxt = Inl e"
| "run_callback (Apply r p k h) nxt =
     (case r nxt p of Inr n' \<Rightarrow> run_callback k n' | Inl e \<Rightarrow> run_callback (h e) nxt)"

text \<open>The calls of \<^verbatim>\<open>applier\<close> the callback makes, in order.\<close>

primrec applied :: "('t, 'p) callback \<Rightarrow> 't \<Rightarrow> (('t, 'p) Reducer \<times> 'p) list" where
  "applied Return nxt = []"
| "applied (Raise e) nxt = []"
| "applied (Apply r p k h) nxt =
     (r, p) # (case r nxt p of Inr n' \<Rightarrow> applied k n' | Inl e \<Rightarrow> applied (h e) nxt)"

text \<open>Sequential application \<open>r\<^sub>N (\<dots> r\<^sub>1 (v, p\<^sub>1) \<dots>, p\<^sub>N)\<close>, undefined once a reducer throws.\<close>

fun apply_in_order :: "'t \<Rightarrow> (('t, 'p) Reducer \<times> 'p) list \<Rightarrow> exn + 't" where
  "apply_in_order v [] = Inr v"
| "apply_in_order v ((r, p) # cs) =
     (case r v p of Inl e \<Rightarrow> Inl e | Inr v' \<Rightarrow> apply_in_order v' cs)"

section \<open>The closure-based store (\<^verbatim>\<open>createStore\<close> with a listener array)\<close>

definition createStore :: "'t \<Rightarrow> ('t, 'r) store" where
  "createStore init =
     \<lparr>current = init, version = 0, listeners = [], closures = [], trace = []\<rparr>"

text \<open>
  \<^verbatim>\<open>for (const notify of listeners) notify()\<close> over the array that \<^verbatim>\<open>unsubscribe\<close>
  splices in place: the array iterator keeps an index and reads the live array at each step.
\<close>

function notifyListeners_from :: "nat \<Rightarrow> ('t, 'r) store \<Rightarrow> ('t, 'r) store" where
  "notifyListeners_from i st =
     (if i < length (listeners st)
      then notifyListeners_from (Suc i) (notify (listeners st ! i) st)
      else st)"
  by pat_completeness auto

definition notifyListeners :: "('t, 'r) store \<Rightarrow> ('t, 'r) store" where
  "notifyListeners st = notifyListeners_from 0 st"

text \<open>
  The four mutation entry points. Each returns what the call returns, \<open>Inl e\<close> when it
  throws \<open>e\<close>, together with the store the call leaves behind.
\<close>

definition update ::
  "('t, 'p) Reducer \<Rightarrow> 'p \<Rightarrow> ('t, 'r) store \<Rightarrow> (exn + 't) \<times> ('t, 'r) store" where
  "update reducer payload st =
     (case reducer (current st) payload of
        Inl e \<Rightarrow> (Inl e, st)
      | Inr nxt \<Rightarrow>
          (let st' = notifyListeners (st\<lparr>current := nxt, version := version st + 1\<rparr>)
           in (Inr (current st'), st')))"

definition set_store :: "'t \<Rightarrow> ('t, 'r) store \<Rightarrow> (exn + 't) \<times> ('t, 'r) store" where
  "set_store nxt st =
     (let st' = notifyListeners (st\<lparr>current := nxt, version := version st + 1\<rparr>)
      in (Inr (current st'), st'))"

definition compute :: "'t Compute \<Rightarrow> ('t, 'r) store \<Rightarrow> (exn + 't) \<times> ('t, 'r) store" where
  "compute fn st =
     (case fn (current st) of
        Inl e \<Rightarrow> (Inl e, st)
      | Inr nxt \<Rightarrow>
          (let st' = notifyListeners (st\<lparr>current := nxt, version := version st + 1\<rparr>)
           in (Inr (current st'), st')))"

definition batch ::
  "('t, 'p) callback \<Rightarrow> ('t, 'r) store \<Rightarrow> (exn + 't) \<times> ('t, 'r) store" where
  "batch cb st =
     (case run_callback cb (current st) of
        Inl e \<Rightarrow> (Inl e, st)
      | Inr nxt \<Rightarrow>
          (let st' = notifyListeners (st\<lparr>current := nxt, version := version st + 1\<rparr>)
           in (Inr (current st'), st')))"

text \<open>
  \<^verbatim>\<open>effect(fn, payload)\<close> returns \<^verbatim>\<open>fn(current, payload)\<close> and touches nothing; what the
  effect then does to the store are calls of their own.
\<close>

definition effect :: "('t \<Rightarrow> 'p \<Rightarrow> 'a) \<Rightarrow> 'p \<Rightarrow> ('t, 'r) store \<Rightarrow> 'a" where
  "effect fn payload st = fn (current st) payload"

section \<open>The class-based store (\<^verbatim>\<open>StoreImpl\<close> with a copy-on-write listener \<^verbatim>\<open>Set\<close>)\<close>

definition StoreImpl :: "'t \<Rightarrow> ('t, 'r) store" where
  "StoreImpl init =
     \<lparr>current = init, version = 0, listeners = [], closures = [], trace = []\<rparr>"

text \<open>
  \<^verbatim>\<open>for (const notify of this.listeners) notify()\<close>: the loop holds the \<^verbatim>\<open>Set\<close> object
  it started with, and subscribing or unsubscribing replaces \<^verbatim>\<open>this.listeners\<close> by a
  new \<^verbatim>\<open>Set\<close> instead of changing that object.
\<close>

definition StoreImpl_notifyListeners :: "('t, 'r) store \<Rightarrow> ('t, 'r) store" where
  "StoreImpl_notifyListeners st = fold notify (listeners st) st"

definition StoreImpl_update ::
  "('t, 'p) Reducer \<Rightarrow> 'p \<Rightarrow> ('t, 'r) store \<Rightarrow> (exn + 't) \<times> ('t, 'r) store" where
  "StoreImpl_update reducer payload st =
     (case reducer (current st) payload of
        Inl e \<Rightarrow> (Inl e, st)
      | Inr nxt \<Rightarrow>
          (let st1 = st\<lparr>current := nxt, version := version st + 1\<rparr>;
               st' = (if length (listeners st1) > 0 then StoreImpl_notifyListeners st1 else st1)
           in (Inr (current st'), st')))"

definition StoreImpl_set :: "'t \<Rightarrow> ('t, 'r) store \<Rightarrow> (exn + 't) \<times> ('t, 'r) store" where
  "StoreImpl_set nxt st =
     (let st1 = st\<lparr>current := nxt, version := version st + 1\<rparr>;
          st' = (if length (listeners st1) > 0 then StoreImpl_notifyListeners st1 else st1)
      in (Inr (current st'), st'))"

definition StoreImpl_compute ::
  "'t Compute \<Rightarrow> ('t, 'r) store \<Rightarrow> (exn + 't) \<times> ('t, 'r) store" where
  "StoreImpl_compute fn st =
     (case fn (current st) of
        Inl e \<Rightarrow> (Inl e, st)
      | Inr nxt \<Rightarrow>
          (let st1 = st\<lparr>current := nxt, version := version st + 1\<rparr>;
               st' = (if length (listeners st1) > 0 then StoreImpl_notifyListeners st1 else st1)
           in (Inr (current st'), st')))"

definition StoreImpl_batch ::
  "('t, 'p) callback \<Rightarrow> ('t, 'r) store \<Rightarrow> (exn + 't) \<times> ('t, 'r) store" where
  "StoreImpl_batch cb st =
     (case run_callback cb (current st) of
        Inl e \<Rightarrow> (Inl e, st)
      | Inr nxt \<Rightarrow>
          (let st1 = st\<lparr>current := nxt, version := version st + 1\<rparr>;
               st' = (if length (listeners st1) > 0 then StoreImpl_notifyListeners st1 else st1)
           in (Inr (current st'), st')))"

section \<open>Calls of the store interface\<close>

text \<open>
  A client drives a store through the methods of \<^verbatim>\<open>Store<T>\<close> and the unsubscribe
  handles that \<^verbatim>\<open>subscribe\<close> returned. \<open>exec\<close> dispatches a
  call to the closure-based store and \<open>StoreImpl_exec\<close> to the class; \<open>run\<close> and
  \<open>StoreImpl_run\<close> make a sequence of calls, going on after a call that threw as a
  client that catches would.
\<close>

datatype ('t, 'p, 'r) call =
    Update "('t, 'p) Reducer" 'p
  | Set 't
  | Compute "'t Compute"
  | Batch "('t, 'p) callback"
  | Subscribe "('t, 'r) Selector" "'r Subscriber" "'r SubscribeOptions option"
  | Unsubscribe nat
  | Read
  | Snapshot
  | Effect "'t \<Rightarrow> 'p \<Rightarrow> exn + unit" 'p

datatype 't outcome = Returned 't | Threw exn | Handle nat | Void

definition outcome_of :: "exn + 't \<Rightarrow> 't outcome" where
  "outcome_of x = (case x of Inl e \<Rightarrow> Threw e | Inr v \<Rightarrow> Returned v)"

fun exec :: "('t, 'p, 'r) call \<Rightarrow> ('t, 'r) store \<Rightarrow> 't outcome \<times> ('t, 'r) store" where
  "exec (Update reducer payload) st = (let (x, st') = update reducer payload st in (outcome_of x, st'))"
| "exec (Set nxt) st = (let (x, st') = set_store nxt st in (outcome_of x, st'))"
| "exec (Compute fn) st = (let (x, st') = compute fn st in (outcome_of x, st'))"
| "exec (Batch cb) st = (let (x, st') = batch cb st in (outcome_of x, st'))"
| "exec (Subscribe sel sub options) st = (let (n, st') = subscribe sel sub options st in (Handle n, st'))"
| "exec (Unsubscribe n) st = (Void, unsubscribe n st)"
| "exec Read st = (Returned (read st), st)"
| "exec Snapshot st = (Returned (snapshot st), st)"
| "exec (Effect fn payload) st =
     ((case effect fn payload st of Inl e \<Rightarrow> Threw e | Inr u \<Rightarrow> Void), st)"

fun StoreImpl_exec :: "('t, 'p, 'r) call \<Rightarrow> ('t, 'r) store \<Rightarrow> 't outcome \<times> ('t, 'r) store" where
  "StoreImpl_exec (Update reducer payload) st =
     (let (x, st') = StoreImpl_update reducer payload st in (outcome_of x, st'))"
| "StoreImpl_exec (Set nxt) st = (let (x, st') = StoreImpl_set nxt st in (outcome_of x, st'))"
| "StoreImpl_exec (Compute fn) st = (let (x, st') = StoreImpl_compute fn st in (outcome_of x, st'))"
| "StoreImpl_exec (Batch cb) st = (let (x, st') = StoreImpl_batch cb st in (outcome_of x, st'))"
| "StoreImpl_exec (Subscribe sel sub options) st =
     (let (n, st') = subscribe sel sub options st in (Handle n, st'))"
| "StoreImpl_exec (Unsubscribe n) st = (Void, unsubscribe n st)"
| "StoreImpl_exec Read st = (Returned (read st), st)"
| "StoreImpl_exec Snapshot st = (Returned (snapshot st), st)"
| "StoreImpl_exec (Effect fn payload) st =
     ((case effect fn payload st of Inl e \<Rightarrow> Threw e | Inr u \<Rightarrow> Void), st)"

definition run :: "('t, 'p, 'r) call list \<Rightarrow> ('t, 'r) store \<Rightarrow> ('t, 'r) store" where
  "run cs st = fold (\<lambda>c s. snd (exec c s)) cs st"

definition StoreImpl_run :: "('t, 'p, 'r) call list \<Rightarrow> ('t, 'r) store \<Rightarrow> ('t, 'r) store" where
  "StoreImpl_run cs st = fold (\<lambda>c s. snd (StoreImpl_exec c s)) cs st"

text \<open>The calls that are mutation entry points.\<close>

fun is_mutation :: "('t, 'p, 'r) call \<Rightarrow> bool" where
  "is_mutation (Update reducer payload) = True"
| "is_mutation (Set nxt) = True"
| "is_mutation (Compute fn) = True"
| "is_mutation (Batch cb) = True"
| "is_mutation (Subscribe sel sub options) = False"
| "is_mutation (Unsubscribe n) = False"
| "is_mutation Read = False"
| "is_mutation Snapshot = False"
| "is_mutation (Effect fn payload) = False"

fun threw :: "'t outcome \<Rightarrow> bool" where
  "threw (Threw e) = True"
| "threw (Returned v) = False"
| "threw (Handle n) = False"
| "threw Void = False"

section \<open>Reading the trace\<close>

text \<open>The subscriptions whose \<^verbatim>\<open>notify\<close> closure was called, in the order of the calls.\<close>

fun notified :: "'r event list \<Rightarrow> nat list" where
  "notified [] = []"
| "notified (Notified n # es) = n # notified es"
| "notified (Fired n v # es) = notified es"

text \<open>The values subscription \<open>n\<close> has had its subscriber called with, in order.\<close>

fun fired :: "nat \<Rightarrow> 'r event list \<Rightarrow> 'r list" where
  "fired n [] = []"
| "fired n (Notified m # es) = fired n es"
| "fired n (Fired m v # es) = (if m = n then v # fired n es else fired n es)"

text \<open>What a call added to the trace.\<close>

definition added :: "('t, 'r) store \<Rightarrow> ('t, 'r) store \<Rightarrow> 'r event list" where
  "added st st' = drop (length (trace st)) (trace st')"

text \<open>
  The registered identities are pairwise different closures that exist: \<^verbatim>\<open>subscribe\<close>
  registers a closure it has just created.
\<close>

definition registered_ok :: "('t, 'r) store \<Rightarrow> bool" where
  "registered_ok st \<longleftrightarrow>
     distinct (listeners st) \<and> list_all (\<lambda>n. n < length (closures st)) (listeners st)"

section \<open>The counter of the test suite\<close>

text \<open>
  \<^verbatim>\<open>tests/store.test.ts\<close> works on \<^verbatim>\<open>{ count: number; label: string }\<close> with the
  reducer \<^verbatim>\<open>add\<close>, a batch of two additions and a subscription to \<^verbatim>\<open>s => s.count\<close>.
\<close>

record CounterState =
  count :: int
  label :: string

definition add :: "(CounterState, int) Reducer" where
  "add p delta = Inr (p\<lparr>count := count p + delta\<rparr>)"

definition failing :: "(CounterState, int) Reducer" where
  "failing p delta = Inl ''boom''"

definition two_adds :: "(CounterState, int) callback" where
  "two_adds = Apply add 1 (Apply add 2 Return Raise) Raise"

definition add_then_throw :: "(CounterState, int) callback" where
  "add_then_throw = Apply add 1 (Raise ''boom'') Raise"

definition counter_init :: CounterState where
  "counter_init = \<lparr>count = 0, label = ''init''\<rparr>"

definition watched_counter :: "(CounterState, int) store" where
  "watched_counter = snd (subscribe count (\<lambda>tr v. []) None (createStore counter_init))"

section \<open>Transaction scopes (\<^verbatim>\<open>src/transaction.ts\<close>)\<close>

text \<open>
  \<^verbatim>\<open>beginTransaction(store: Store<T>)\<close> works on any implementation of the interface. It
  uses three of its methods, passed here as a record over the store's state \<open>'s\<close>.
\<close>

record ('t, 's) Store =
  Store_snapshot :: "'s \<Rightarrow> 't"
  Store_set :: "'t \<Rightarrow> 's \<Rightarrow> (exn + 't) \<times> 's"
  Store_read :: "'s \<Rightarrow> 't"

definition closure_based :: "('t, ('t, 'r) store) Store" where
  "closure_based = \<lparr>Store_snapshot = snapshot, Store_set = set_store, Store_read = read\<rparr>"

definition class_based :: "('t, ('t, 'r) store) Store" where
  "class_based = \<lparr>Store_snapshot = snapshot, Store_set = StoreImpl_set, Store_read = read\<rparr>"

text \<open>
  The scope's two variables: \<^verbatim>\<open>initial\<close>, assigned once, and \<^verbatim>\<open>next\<close>. There is no
  other state, in particular no flag that the scope has been committed or rolled back.
\<close>

record 't Transaction =
  tx_initial :: 't
  tx_next :: 't

definition beginTransaction :: "('t, 's) Store \<Rightarrow> 's \<Rightarrow> 't Transaction" where
  "beginTransaction S st = \<lparr>tx_initial = Store_snapshot S st, tx_next = Store_snapshot S st\<rparr>"

definition tx_read :: "'t Transaction \<Rightarrow> 't" where
  "tx_read tx = tx_next tx"

definition tx_apply ::
  "('t, 'p) Reducer \<Rightarrow> 'p \<Rightarrow> 't Transaction \<Rightarrow> (exn + 't) \<times> 't Transaction" where
  "tx_apply reducer payload tx =
     (case reducer (tx_next tx) payload of
        Inl e \<Rightarrow> (Inl e, tx)
      | Inr n \<Rightarrow> (Inr n, tx\<lparr>tx_next := n\<rparr>))"

definition tx_compute :: "'t Compute \<Rightarrow> 't Transaction \<Rightarrow> (exn + 't) \<times> 't Transaction" where
  "tx_compute fn tx =
     (case fn (tx_next tx) of
        Inl e \<Rightarrow> (Inl e, tx)
      | Inr n \<Rightarrow> (Inr n, tx\<lparr>tx_next := n\<rparr>))"

definition tx_set :: "'t \<Rightarrow> 't Transaction \<Rightarrow> (exn + 't) \<times> 't Transaction" where
  "tx_set s tx = (Inr s, tx\<lparr>tx_next := s\<rparr>)"

text \<open>\<^verbatim>\<open>commit() { store.set(next); return store.read() }\<close>\<close>

definition commit :: "('t, 's) Store \<Rightarrow> 't Transaction \<Rightarrow> 's \<Rightarrow> (exn + 't) \<times> 's" where
  "commit S tx st =
     (case Store_set S (tx_next tx) st of
        (Inl e, st') \<Rightarrow> (Inl e, st')
      | (Inr v, st') \<Rightarrow> (Inr (Store_read S st'), st'))"

text \<open>\<^verbatim>\<open>rollback() { next = initial; return next }\<close>\<close>

definition rollback :: "'t Transaction \<Rightarrow> (exn + 't) \<times> 't Transaction" where
  "rollback tx = (Inr (tx_initial tx), tx\<lparr>tx_next := tx_initial tx\<rparr>)"

text \<open>
  A client's calls on a scope, run on the pair of the scope and its store; after a call that
  threw the client goes on with the next.
\<close>

datatype ('t, 'p) tx_call =
    TxRead
  | TxApply "('t, 'p) Reducer" 'p
  | TxCompute "'t Compute"
  | TxSet 't
  | Commit
  | Rollback

fun tx_exec ::
  "('t, 's) Store \<Rightarrow> ('t, 'p) tx_call \<Rightarrow> 't Transaction \<times> 's
    \<Rightarrow> (exn + 't) \<times> ('t Transaction \<times> 's)" where
  "tx_exec S TxRead (tx, st) = (Inr (tx_read tx), (tx, st))"
| "tx_exec S (TxApply reducer payload) (tx, st) =
     (let (x, tx') = tx_apply reducer payload tx in (x, (tx', st)))"
| "tx_exec S (TxCompute fn) (tx, st) = (let (x, tx') = tx_compute fn tx in (x, (tx', st)))"
| "tx_exec S (TxSet s) (tx, st) = (let (x, tx') = tx_set s tx in (x, (tx', st)))"
| "tx_exec S Commit (tx, st) = (let (x, st') = commit S tx st in (x, (tx, st')))"
| "tx_exec S Rollback (tx, st) = (let (x, tx') = rollback tx in (x, (tx', st)))"

definition tx_run ::
  "('t, 's) Store \<Rightarrow> ('t, 'p) tx_call list \<Rightarrow> 't Transaction \<times> 's \<Rightarrow> 't Transaction \<times> 's" where
  "tx_run S cs w = fold (\<lambda>c w. snd (tx_exec S c w)) cs w"

text \<open>The staging calls, which work on \<^verbatim>\<open>next\<close> alone.\<close>

fun is_staged :: "('t, 'p) tx_call \<Rightarrow> bool" where
  "is_staged TxRead = True"
| "is_staged (TxApply reducer payload) = True"
| "is_staged (TxCompute fn) = True"
| "is_staged (TxSet s) = True"
| "is_staged Commit = False"
| "is_staged Rollback = False"

fun is_commit :: "('t, 'p) tx_call \<Rightarrow> bool" where
  "is_commit Commit = True"
| "is_commit c = False"

text \<open>The transaction of \<^verbatim>\<open>tests/history.test.ts\<close>: add 1, add 2, double.\<close>

definition double :: "CounterState Compute" where
  "double p = Inr (p\<lparr>count := count p * 2\<rparr>)"

section \<open>The composite view (\<^verbatim>\<open>combineStores\<close>)\<close>

text \<open>
  \<^verbatim>\<open>combineStores(stores)\<close> keeps an aggregate object with one slot per key. The object
  has an identity, \<open>ref\<close>: \<^verbatim>\<open>{ ...current }\<close> allocates a new one, and \<^verbatim>\<open>Object.is\<close> on
  aggregates compares identities. A slot holds a member's value, itself a JavaScript value
  up to \<^verbatim>\<open>Object.is\<close>, so that equal slots are reference-identical slots.
\<close>

type_synonym key = string

record 'v aggregate =
  ref :: nat
  slots :: "key \<Rightarrow> 'v option"

text \<open>
  A subscriber of the composite is modelled like a subscriber of a store: by the unsubscribe
  handles of the composite that it calls before it returns.
\<close>

type_synonym 'v CombinedSubscriber = "'v aggregate \<Rightarrow> nat list"

text \<open>The closure \<^verbatim>\<open>notify\<close> of \<^verbatim>\<open>Combined.subscribe\<close>, with its \<^verbatim>\<open>eq\<close> and \<^verbatim>\<open>prev\<close>.\<close>

record 'v combined_listener =
  c_eq :: "'v aggregate Equality"
  c_prev :: "'v aggregate"
  c_subscriber :: "'v CombinedSubscriber"

text \<open>
  The composite together with its member stores. The members are pairwise different stores,
  one per key, and the composite is their only subscriber; they are mutated from outside
  by \<^verbatim>\<open>set\<close> (an \<^verbatim>\<open>update\<close>, \<^verbatim>\<open>compute\<close> or \<^verbatim>\<open>batch\<close> that returns does the same
  with the value it computed). \<open>agg\<close> is the variable \<^verbatim>\<open>current\<close> of \<^verbatim>\<open>combineStores\<close>,
  \<open>subscribers\<close> its array of \<^verbatim>\<open>notify\<close> closures, \<open>childUnsubs\<close> is \<^verbatim>\<open>null\<close> or the
  unsubscribe handles of the member listeners, each the key of its store and the listener's
  identity there. \<open>fresh\<close> is the next unused object identity.
\<close>

record 'v world =
  stores :: "key \<Rightarrow> ('v, 'v) store"
  keys :: "key list"
  agg :: "'v aggregate"
  subscribers :: "nat list"
  combined_closures :: "'v combined_listener list"
  childUnsubs :: "(key \<times> nat) list option"
  fresh :: nat
  delivered :: "(nat \<times> 'v aggregate) list"

text \<open>
  \<^verbatim>\<open>let current = {}; for (const k of keys) current[k] = stores[k].snapshot()\<close>
\<close>

definition combineStores :: "key list \<Rightarrow> (key \<Rightarrow> ('v, 'v) store) \<Rightarrow> 'v world" where
  "combineStores ks sts =
     \<lparr>stores = sts, keys = ks,
      agg = \<lparr>ref = 0, slots = fold (\<lambda>k m. m(k \<mapsto> snapshot (sts k))) ks Map.empty\<rparr>,
      subscribers = [], combined_closures = [], childUnsubs = None, fresh = 1,
      delivered = []\<rparr>"

definition Combined_read :: "'v world \<Rightarrow> 'v aggregate" where
  "Combined_read w = agg w"

text \<open>
  \<^verbatim>\<open>if (!childUnsubs) return; for (const u of childUnsubs) u(); childUnsubs = null\<close>
\<close>

fun childUnsub :: "key \<times> nat \<Rightarrow> 'v world \<Rightarrow> 'v world" where
  "childUnsub (k, n) w = w\<lparr>stores := (stores w)(k := unsubscribe n (stores w k))\<rparr>"

definition detach :: "'v world \<Rightarrow> 'v world" where
  "detach w =
     (case childUnsubs w of
        None \<Rightarrow> w
      | Some us \<Rightarrow> (fold childUnsub us w)\<lparr>childUnsubs := None\<rparr>)"

text \<open>
  The handle \<^verbatim>\<open>Combined.subscribe\<close> returns:
  \<^verbatim>\<open>idx = subscribers.indexOf(notify); if (idx >= 0) subscribers.splice(idx, 1);
  if (subscribers.length === 0) detach()\<close>
\<close>

definition Combined_unsubscribe :: "nat \<Rightarrow> 'v world \<Rightarrow> 'v world" where
  "Combined_unsubscribe n w =
     (let w1 = (if n \<in> set (subscribers w)
                then w\<lparr>subscribers := remove1 n (subscribers w)\<rparr> else w)
      in if length (subscribers w1) = 0 then detach w1 else w1)"

definition Combined_call_subscriber :: "nat \<Rightarrow> 'v aggregate \<Rightarrow> 'v world \<Rightarrow> 'v world" where
  "Combined_call_subscriber n a w =
     fold Combined_unsubscribe (c_subscriber (combined_closures w ! n) a)
       (w\<lparr>delivered := delivered w @ [(n, a)]\<rparr>)"

text \<open>
  \<^verbatim>\<open>const notify = () => { const next = current;
  if (!eq(prev, next)) { prev = next; subscriber(next) } }\<close>
\<close>

definition Combined_notify :: "nat \<Rightarrow> 'v world \<Rightarrow> 'v world" where
  "Combined_notify n w =
     (let c = combined_closures w ! n;
          nxt = agg w
      in if \<not> c_eq c (c_prev c) nxt
         then Combined_call_subscriber n nxt
                (w\<lparr>combined_closures := (combined_closures w)[n := c\<lparr>c_prev := nxt\<rparr>]\<rparr>)
         else w)"

text \<open>
  \<^verbatim>\<open>for (const n of subscribers) n()\<close> over the array that the handles splice in place.
\<close>

function notifyAll_from :: "nat \<Rightarrow> 'v world \<Rightarrow> 'v world" where
  "notifyAll_from i w =
     (if i < length (subscribers w)
      then notifyAll_from (Suc i) (Combined_notify (subscribers w ! i) w)
      else w)"
  by pat_completeness auto

definition notifyAll :: "'v world \<Rightarrow> 'v world" where
  "notifyAll w = notifyAll_from 0 w"

text \<open>
  The subscriber that \<^verbatim>\<open>attach\<close> gives to the store of key \<open>k\<close>:
  \<^verbatim>\<open>const next = { ...current }; next[k] = s.snapshot();
  if (!Object.is(current, next)) { current = next; notifyAll() }\<close>
\<close>

definition member_changed :: "key \<Rightarrow> 'v world \<Rightarrow> 'v world" where
  "member_changed k w =
     (let nxt = \<lparr>ref = fresh w, slots = (slots (agg w))(k \<mapsto> snapshot (stores w k))\<rparr>;
          w1 = w\<lparr>fresh := Suc (fresh w)\<rparr>
      in if ref (agg w1) \<noteq> ref nxt then notifyAll (w1\<lparr>agg := nxt\<rparr>) else w1)"

text \<open>
  \<^verbatim>\<open>if (childUnsubs) return; childUnsubs = keys.map(k => stores[k].subscribe(x => x, \<dots>))\<close>.
  The member listener is an ordinary subscription of the store, with the identity as
  selector and the default equality; what its subscriber does is \<open>member_changed\<close>.
\<close>

fun attach_key :: "key \<Rightarrow> (key \<times> nat) list \<times> 'v world \<Rightarrow> (key \<times> nat) list \<times> 'v world" where
  "attach_key k (us, w) =
     (let (n, st') = subscribe (\<lambda>x. x) (\<lambda>tr v. []) None (stores w k)
      in (us @ [(k, n)], w\<lparr>stores := (stores w)(k := st')\<rparr>))"

definition attach :: "'v world \<Rightarrow> 'v world" where
  "attach w =
     (if childUnsubs w \<noteq> None then w
      else (let (us, w') = fold attach_key (keys w) ([], w)
            in w'\<lparr>childUnsubs := Some us\<rparr>))"

text \<open>
  \<^verbatim>\<open>Combined.subscribe(subscriber, options)\<close>: \<^verbatim>\<open>eq = options?.eq ?? Object.is\<close>,
  attach when not attached, \<^verbatim>\<open>prev = current\<close>, the immediate call when asked for, then
  the registration. It returns the handle.
\<close>

definition Combined_subscribe ::
  "'v CombinedSubscriber \<Rightarrow> 'v aggregate SubscribeOptions option \<Rightarrow> 'v world
    \<Rightarrow> nat \<times> 'v world" where
  "Combined_subscribe sub options w =
     (let e = (case options of None \<Rightarrow> (\<lambda>a b. ref a = ref b)
               | Some opts \<Rightarrow>
                   (case opt_eq opts of None \<Rightarrow> (\<lambda>a b. ref a = ref b) | Some f \<Rightarrow> f));
          w1 = (if childUnsubs w = None then attach w else w);
          p = agg w1;
          n = length (combined_closures w1);
          w2 = w1\<lparr>combined_closures :=
                    combined_closures w1 @ [\<lparr>c_eq = e, c_prev = p, c_subscriber = sub\<rparr>]\<rparr>;
          w3 = (if (case options of None \<Rightarrow> False | Some opts \<Rightarrow> fireImmediately opts)
                then Combined_call_subscriber n p w2 else w2)
      in (n, w3\<lparr>subscribers := subscribers w3 @ [n]\<rparr>))"

text \<open>
  A member store's \<^verbatim>\<open>notify\<close> closure, \<^verbatim>\<open>notifyListeners\<close> and \<^verbatim>\<open>set\<close> as in
  \<^verbatim>\<open>StoreImpl\<close>, seen from the composite: the subscriber that is called is the composite's.
  With the composite as only subscriber the closure-based store runs the same pass.
\<close>

definition member_notify :: "key \<Rightarrow> nat \<Rightarrow> 'v world \<Rightarrow> 'v world" where
  "member_notify k n w =
     (let st = stores w k;
          c = closures st ! n;
          nxt = selector c (current st);
          st0 = st\<lparr>trace := trace st @ [Notified n]\<rparr>
      in if \<not> eq c (prev c) nxt
         then member_changed k
                (w\<lparr>stores := (stores w)
                    (k := st0\<lparr>closures := (closures st0)[n := c\<lparr>prev := nxt\<rparr>],
                            trace := trace st0 @ [Fired n nxt]\<rparr>)\<rparr>)
         else w\<lparr>stores := (stores w)(k := st0)\<rparr>)"

definition member_notifyListeners :: "key \<Rightarrow> 'v world \<Rightarrow> 'v world" where
  "member_notifyListeners k w = fold (member_notify k) (listeners (stores w k)) w"

definition member_set :: "key \<Rightarrow> 'v \<Rightarrow> 'v world \<Rightarrow> 'v world" where
  "member_set k nxt w =
     (let st = stores w k;
          st1 = st\<lparr>current := nxt, version := version st + 1\<rparr>;
          w1 = w\<lparr>stores := (stores w)(k := st1)\<rparr>
      in if length (listeners st1) > 0 then member_notifyListeners k w1 else w1)"

text \<open>The calls a client makes on the composite and on its members.\<close>

datatype 'v world_call =
    MemberSet key 'v
  | CombinedSubscribe "'v CombinedSubscriber" "'v aggregate SubscribeOptions option"
  | CombinedUnsubscribe nat
  | CombinedRead

fun world_exec :: "'v world_call \<Rightarrow> 'v world \<Rightarrow> 'v world" where
  "world_exec (MemberSet k v) w = member_set k v w"
| "world_exec (CombinedSubscribe sub options) w = snd (Combined_subscribe sub options w)"
| "world_exec (CombinedUnsubscribe n) w = Combined_unsubscribe n w"
| "world_exec CombinedRead w = w"

text \<open>
  Running a sequence of calls, and whether each member mutation in it happens while the
  member listeners are attached.
\<close>

fun world_run :: "'v world_call list \<Rightarrow> 'v world \<Rightarrow> 'v world" where
  "world_run [] w = w"
| "world_run (c # cs) w = world_run cs (world_exec c w)"

fun mutations_attached :: "'v world_call list \<Rightarrow> 'v world \<Rightarrow> bool" where
  "mutations_attached [] w = True"
| "mutations_attached (MemberSet k v # cs) w =
     (childUnsubs w \<noteq> None \<and> mutations_attached cs (world_exec (MemberSet k v) w))"
| "mutations_attached (c # cs) w = mutations_attached cs (world_exec c w)"

text \<open>The aggregate holds, for every key, the current value of that member.\<close>

definition in_sync :: "'v world \<Rightarrow> bool" where
  "in_sync w \<longleftrightarrow> list_all (\<lambda>k. slots (agg w) k = Some (current (stores w k))) (keys w)"

text \<open>
  A step that only unsubscribes: it leaves the aggregate, the keys and every member's value,
  version, closures and trace alone, and removes listeners, either none from the members or,
  when it detaches, the member listeners.
\<close>

definition settles :: "'v world \<Rightarrow> 'v world \<Rightarrow> bool" where
  "settles w w' \<longleftrightarrow>
     agg w' = agg w \<and> fresh w' = fresh w \<and> keys w' = keys w
     \<and> (\<forall>k. current (stores w' k) = current (stores w k)
            \<and> version (stores w' k) = version (stores w k)
            \<and> closures (stores w' k) = closures (stores w k)
            \<and> trace (stores w' k) = trace (stores w k)
            \<and> set (listeners (stores w' k)) \<subseteq> set (listeners (stores w k)))
     \<and> length (subscribers w') \<le> length (subscribers w)
     \<and> (childUnsubs w' = None \<or> (childUnsubs w' = childUnsubs w \<and> stores w' = stores w))"

text \<open>
  A member listener as \<^verbatim>\<open>attach\<close> registers it, between two passes of its store: an
  existing closure with the identity as selector, the default equality, and the store's
  current value as \<^verbatim>\<open>prev\<close>.
\<close>

definition member_listener_ok :: "('v, 'v) store \<Rightarrow> nat \<Rightarrow> bool" where
  "member_listener_ok st n \<longleftrightarrow>
     n < length (closures st) \<and> selector (closures st ! n) = (\<lambda>x. x)
     \<and> eq (closures st ! n) = (=) \<and> prev (closures st ! n) = current st"

text \<open>
  What holds of the members between two calls: new aggregates get new identities, the
  listeners of the member stores are member listeners, and while attached every member
  store has one.
\<close>

definition members_ok :: "'v world \<Rightarrow> bool" where
  "members_ok w \<longleftrightarrow>
     ref (agg w) < fresh w
     \<and> (\<forall>k. list_all (member_listener_ok (stores w k)) (listeners (stores w k)))
     \<and> (childUnsubs w = None \<or> list_all (\<lambda>k. listeners (stores w k) \<noteq> []) (keys w))"

text \<open>
  The same during a pass of the store of key \<open>k\<close> over the listeners \<open>rem\<close> still to
  be called: a listener of that store that is still to be called may have the value from
  before the mutation as \<^verbatim>\<open>prev\<close>.
\<close>

definition pass_ok :: "key \<Rightarrow> nat list \<Rightarrow> 'v world \<Rightarrow> bool" where
  "pass_ok k rem w \<longleftrightarrow>
     ref (agg w) < fresh w
     \<and> (\<forall>j. j = k \<or> list_all (member_listener_ok (stores w j)) (listeners (stores w j)))
     \<and> (childUnsubs w = None \<or> list_all (\<lambda>k. listeners (stores w k) \<noteq> []) (keys w))
     \<and> list_all (\<lambda>n. n \<in> set rem \<or> member_listener_ok (stores w k) n) (listeners (stores w k))
     \<and> list_all (\<lambda>n. n < length (closures (stores w k))
                      \<and> selector (closures (stores w k) ! n) = (\<lambda>x. x)
                      \<and> eq (closures (stores w k) ! n) = (=)) (listeners (stores w k))"

text \<open>The two stores of \<^verbatim>\<open>tests/combine.test.ts\<close>, as values.\<close>

definition two_stores :: "key \<Rightarrow> (string, string) store" where
  "two_stores k = (if k = ''sa'' then StoreImpl ''a1'' else StoreImpl ''bx'')"

definition two_combined :: "string world" where
  "two_combined = combineStores [''sa'', ''sb''] two_stores"

section \<open>The array loop terminates\<close>

lemma length_listeners_unsubscribe:
  "length (listeners (unsubscribe n st)) \<le> length (listeners st)"
  by (simp add: unsubscribe_def length_remove1)

lemma length_listeners_fold_unsubscribe:
  "length (listeners (fold unsubscribe hs st)) \<le> length (listeners st)"
proof (induction hs arbitrary: st)
  case Nil
  show ?case by simp
next
  case (Cons h hs)
  have "length (listeners (fold unsubscribe hs (unsubscribe h st)))
          \<le> length (listeners (unsubscribe h st))"
    by (rule Cons.IH)
  also have "\<dots> \<le> length (listeners st)"
    by (rule length_listeners_unsubscribe)
  finally show ?case by simp
qed

lemma length_listeners_notify:
  "length (listeners (notify n st)) \<le> length (listeners st)"
proof -
  have "length (listeners (call_subscriber n v s)) \<le> length (listeners s)" for v and s :: "('a, 'b) store"
    using length_listeners_fold_unsubscribe [of _ "s\<lparr>trace := trace s @ [Fired n v]\<rparr>"]
    by (simp add: call_subscriber_def)
  from this [of _ "st\<lparr>trace := trace st @ [Notified n],
      closures := (closures st)[n := (closures st ! n)\<lparr>prev := selector (closures st ! n) (current st)\<rparr>]\<rparr>"]
  show ?thesis
    by (simp add: notify_def Let_def)
qed

termination notifyListeners_from
proof (relation "measure (\<lambda>(i, st). length (listeners st) - i)")
  show "wf (measure (\<lambda>(i, st :: ('a, 'b) store). length (listeners st) - i))"
    by simp
next
  fix i and st :: "('a, 'b) store"
  assume "i < length (listeners st)"
  moreover have "length (listeners (notify (listeners st ! i) st)) \<le> length (listeners st)"
    by (rule length_listeners_notify)
  ultimately show "((Suc i, notify (listeners st ! i) st), (i, st))
      \<in> measure (\<lambda>(i, st). length (listeners st) - i)"
    by simp
qed

declare notifyListeners_from.simps [simp del]


section \<open>Listeners never touch the value or the version\<close>

lemma unsubscribe_frame [simp]:
  "current (unsubscribe n st) = current st"
  "version (unsubscribe n st) = version st"
  "closures (unsubscribe n st) = closures st"
  "trace (unsubscribe n st) = trace st"
  by (simp_all add: unsubscribe_def)

lemma fold_unsubscribe_frame [simp]:
  "current (fold unsubscribe hs st) = current st"
  "version (fold unsubscribe hs st) = version st"
  "closures (fold unsubscribe hs st) = closures st"
  "trace (fold unsubscribe hs st) = trace st"
  by (induction hs arbitrary: st) simp_all

lemma call_subscriber_frame [simp]:
  "current (call_subscriber n v st) = current st"
  "version (call_subscriber n v st) = version st"
  "closures (call_subscriber n v st) = closures st"
  "trace (call_subscriber n v st) = trace st @ [Fired n v]"
  by (simp_all add: call_subscriber_def)

lemma notify_frame [simp]:
  "current (notify n st) = current st"
  "version (notify n st) = version st"
  by (simp_all add: notify_def Let_def)

lemma notifyListeners_from_frame:
  "current (notifyListeners_from i st) = current st \<and> version (notifyListeners_from i st) = version st"
proof (induction i st rule: notifyListeners_from.induct)
  case (1 i st)
  show ?case
  proof (cases "i < length (listeners st)")
    case True
    with "1.IH" show ?thesis
      by (subst (1 2) notifyListeners_from.simps) simp
  next
    case False
    then show ?thesis
      by (subst (1 2) notifyListeners_from.simps) simp
  qed
qed

lemma notifyListeners_frame [simp]:
  "current (notifyListeners st) = current st"
  "version (notifyListeners st) = version st"
  by (simp_all add: notifyListeners_def notifyListeners_from_frame)

lemma fold_notify_frame [simp]:
  "current (fold notify ns st) = current st"
  "version (fold notify ns st) = version st"
  by (induction ns arbitrary: st) simp_all

lemma StoreImpl_notifyListeners_frame [simp]:
  "current (StoreImpl_notifyListeners st) = current st"
  "version (StoreImpl_notifyListeners st) = version st"
  by (simp_all add: StoreImpl_notifyListeners_def)

lemma StoreImpl_guard:
  "listeners st = [] \<Longrightarrow> StoreImpl_notifyListeners st = st"
  by (simp add: StoreImpl_notifyListeners_def)

lemma run_callback_applied:
  "apply_in_order s (applied cb s) = Inr v \<Longrightarrow> run_callback cb s = Inr w \<Longrightarrow> w = v"
proof (induction cb arbitrary: s)
  case Return
  then show ?case by simp
next
  case (Raise e)
  then show ?case by simp
next
  case (Apply r p k h)
  then show ?case
    by (auto split: sum.splits)
qed

lemma set_store_eq:
  "set_store v st = (Inr v, notifyListeners (st\<lparr>current := v, version := version st + 1\<rparr>))"
  by (simp add: set_store_def Let_def)

lemma StoreImpl_set_eq:
  "StoreImpl_set v st
     = (Inr v, StoreImpl_notifyListeners (st\<lparr>current := v, version := version st + 1\<rparr>))"
  by (simp add: StoreImpl_set_def Let_def StoreImpl_guard)

section \<open>The version counter along calls\<close>

lemma exec_version:
  "version (snd (exec c st)) = version st + (if is_mutation c \<and> \<not> threw (fst (exec c st)) then 1 else 0)"
  by (cases c)
    (simp_all add: update_def set_store_def compute_def batch_def subscribe_def Let_def
      outcome_of_def read_def snapshot_def split: sum.splits)

lemma StoreImpl_exec_version:
  "version (snd (StoreImpl_exec c st))
     = version st + (if is_mutation c \<and> \<not> threw (fst (StoreImpl_exec c st)) then 1 else 0)"
  by (cases c)
    (simp_all add: StoreImpl_update_def StoreImpl_set_def StoreImpl_compute_def StoreImpl_batch_def
      subscribe_def Let_def outcome_of_def read_def split: sum.splits)

lemma run_version_mono: "version st \<le> version (run cs st)"
proof (induction cs arbitrary: st)
  case Nil
  show ?case by (simp add: run_def)
next
  case (Cons c cs)
  have "version st \<le> version (snd (exec c st))"
    by (simp add: exec_version)
  also have "\<dots> \<le> version (run cs (snd (exec c st)))"
    by (rule Cons.IH)
  finally show ?case by (simp add: run_def)
qed

lemma StoreImpl_run_version_mono: "version st \<le> version (StoreImpl_run cs st)"
proof (induction cs arbitrary: st)
  case Nil
  show ?case by (simp add: StoreImpl_run_def)
next
  case (Cons c cs)
  have "version st \<le> version (snd (StoreImpl_exec c st))"
    by (simp add: StoreImpl_exec_version)
  also have "\<dots> \<le> version (StoreImpl_run cs (snd (StoreImpl_exec c st)))"
    by (rule Cons.IH)
  finally show ?case by (simp add: StoreImpl_run_def)
qed

lemma exec_current:
  "current (snd (exec c st))
     = (if is_mutation c then (case fst (exec c st) of Returned v \<Rightarrow> v | _ \<Rightarrow> current st) else current st)"
  by (cases c)
    (simp_all add: update_def set_store_def compute_def batch_def subscribe_def Let_def
      outcome_of_def read_def snapshot_def split: sum.splits)

lemma StoreImpl_exec_current:
  "current (snd (StoreImpl_exec c st))
     = (if is_mutation c then (case fst (StoreImpl_exec c st) of Returned v \<Rightarrow> v | _ \<Rightarrow> current st)
        else current st)"
  by (cases c)
    (simp_all add: StoreImpl_update_def StoreImpl_set_def StoreImpl_compute_def StoreImpl_batch_def
      subscribe_def Let_def outcome_of_def read_def split: sum.splits)

section \<open>What a notification pass adds to the trace\<close>

lemma notified_append [simp]: "notified (a @ b) = notified a @ notified b"
  by (induction a rule: notified.induct) simp_all

lemma fired_append [simp]: "fired n (a @ b) = fired n a @ fired n b"
  by (induction n a rule: fired.induct) simp_all

lemma length_closures_notify [simp]: "length (closures (notify n st)) = length (closures st)"
  by (simp add: notify_def Let_def)

lemma trace_notify:
  "trace (notify n st) = trace st @ Notified n #
     (if eq (closures st ! n) (prev (closures st ! n)) (selector (closures st ! n) (current st))
      then [] else [Fired n (selector (closures st ! n) (current st))])"
  by (simp add: notify_def Let_def)

lemma added_notify:
  "added st (notify n st) = Notified n #
     (if eq (closures st ! n) (prev (closures st ! n)) (selector (closures st ! n) (current st))
      then [] else [Fired n (selector (closures st ! n) (current st))])"
  by (simp add: added_def trace_notify)

lemma closures_notify:
  "closures (notify n st) =
     (if eq (closures st ! n) (prev (closures st ! n)) (selector (closures st ! n) (current st))
      then closures st
      else (closures st)[n := (closures st ! n)\<lparr>prev := selector (closures st ! n) (current st)\<rparr>])"
  by (simp add: notify_def Let_def)

lemma trace_fold_notify: "\<exists>es. trace (fold notify ns st) = trace st @ es \<and> notified es = ns"
proof (induction ns arbitrary: st)
  case Nil
  show ?case by simp
next
  case (Cons n ns)
  obtain es where es: "trace (fold notify ns (notify n st)) = trace (notify n st) @ es"
      "notified es = ns"
    using Cons.IH [of "notify n st"] by blast
  show ?case
    using es by (simp add: trace_notify)
qed

lemma StoreImpl_pass_notifies_snapshot:
  "notified (added st (StoreImpl_notifyListeners st)) = listeners st"
proof -
  obtain es where "trace (fold notify (listeners st) st) = trace st @ es" "notified es = listeners st"
    using trace_fold_notify [of "listeners st" st] by blast
  then show ?thesis
    by (simp add: added_def StoreImpl_notifyListeners_def)
qed

lemma added_trans:
  assumes "trace st1 = trace st @ a" and "trace st2 = trace st1 @ b"
  shows "added st st2 = added st st1 @ added st1 st2"
  using assms by (simp add: added_def)

lemma fold_notify_one:
  assumes "distinct ns" and "n < length (closures st)"
  shows "fired n (added st (fold notify ns st))
      = (if n \<in> set ns \<and> \<not> eq (closures st ! n) (prev (closures st ! n))
               (selector (closures st ! n) (current st))
         then [selector (closures st ! n) (current st)] else [])
    \<and> closures (fold notify ns st) ! n
      = (if n \<in> set ns \<and> \<not> eq (closures st ! n) (prev (closures st ! n))
               (selector (closures st ! n) (current st))
         then (closures st ! n)\<lparr>prev := selector (closures st ! n) (current st)\<rparr>
         else closures st ! n)"
  using assms
proof (induction ns arbitrary: st)
  case Nil
  show ?case by (simp add: added_def)
next
  case (Cons m ns)
  let ?s1 = "notify m st"
  have d: "distinct ns" and mn: "m \<notin> set ns"
    using Cons.prems(1) by simp_all
  have len: "n < length (closures ?s1)"
    using Cons.prems(2) by simp
  note ih = Cons.IH [OF d len]
  obtain es where es: "trace (fold notify ns ?s1) = trace ?s1 @ es"
    using trace_fold_notify [of ns ?s1] by blast
  have split: "added st (fold notify ns (notify m st))
      = added st (notify m st) @ added (notify m st) (fold notify ns (notify m st))"
    using added_trans [OF trace_notify es] by simp
  show ?case
  proof (cases "m = n")
    case True
    then have nn: "n \<notin> set ns" using mn by simp
    have split': "added st (fold notify ns (notify n st))
        = added st (notify n st) @ added (notify n st) (fold notify ns (notify n st))"
      using split True by simp
    show ?thesis
      using ih nn True Cons.prems(2)
      by (simp add: split' added_notify closures_notify)
  next
    case False
    have same: "closures ?s1 ! n = closures st ! n"
      using False by (simp add: closures_notify)
    show ?thesis
      using ih False same
      by (simp add: split added_notify)
  qed
qed

section \<open>The registered listeners stay pairwise different existing closures\<close>

lemma registered_ok_unsubscribe: "registered_ok st \<Longrightarrow> registered_ok (unsubscribe n st)"
  using set_remove1_subset [of n "listeners st"]
  by (auto simp: registered_ok_def unsubscribe_def list_all_iff)

lemma registered_ok_fold_unsubscribe:
  "registered_ok st \<Longrightarrow> registered_ok (fold unsubscribe hs st)"
  by (induction hs arbitrary: st) (simp_all add: registered_ok_unsubscribe)

lemma registered_ok_call_subscriber:
  assumes "registered_ok st"
  shows "registered_ok (call_subscriber n v st)"
proof -
  have "registered_ok (st\<lparr>trace := trace st @ [Fired n v]\<rparr>)"
    using assms by (simp add: registered_ok_def)
  then show ?thesis
    unfolding call_subscriber_def by (rule registered_ok_fold_unsubscribe)
qed

lemma registered_ok_notify:
  assumes "registered_ok st"
  shows "registered_ok (notify n st)"
proof -
  have "registered_ok (st\<lparr>trace := t, closures := (closures st)[n := c]\<rparr>)" for t c
    using assms by (simp add: registered_ok_def)
  moreover have "registered_ok (st\<lparr>trace := t\<rparr>)" for t
    using assms by (simp add: registered_ok_def)
  ultimately show ?thesis
    by (simp add: notify_def Let_def registered_ok_call_subscriber)
qed

lemma registered_ok_fold_notify:
  "registered_ok st \<Longrightarrow> registered_ok (fold notify ns st)"
  by (induction ns arbitrary: st) (simp_all add: registered_ok_notify)

lemma registered_ok_notifyListeners_from:
  "registered_ok st \<Longrightarrow> registered_ok (notifyListeners_from i st)"
proof (induction i st rule: notifyListeners_from.induct)
  case (1 i st)
  show ?case
  proof (cases "i < length (listeners st)")
    case True
    have "registered_ok (notify (listeners st ! i) st)"
      using "1.prems" by (rule registered_ok_notify)
    from "1.IH" [OF True this] show ?thesis
      using True by (subst notifyListeners_from.simps) simp
  next
    case False
    then show ?thesis
      using "1.prems" by (subst notifyListeners_from.simps) simp
  qed
qed

lemma registered_ok_commit:
  "registered_ok st \<Longrightarrow> registered_ok (st\<lparr>current := v, version := n\<rparr>)"
  by (simp add: registered_ok_def)

lemma registered_ok_subscribe:
  assumes "registered_ok st"
  shows "registered_ok (snd (subscribe sel sub options st))"
proof -
  let ?c = "\<lparr>selector = sel,
      eq = (case options of None \<Rightarrow> (=)
            | Some opts \<Rightarrow> (case opt_eq opts of None \<Rightarrow> (=) | Some f \<Rightarrow> f)),
      prev = sel (current st), subscriber = sub\<rparr>"
  let ?st1 = "st\<lparr>closures := closures st @ [?c]\<rparr>"
  let ?n = "length (closures st)"
  have below: "list_all (\<lambda>m. m < ?n) (listeners ?st1)" and d1: "distinct (listeners ?st1)"
    using assms by (simp_all add: registered_ok_def)
  have keep: "distinct (listeners s) \<and> list_all (\<lambda>m. m < ?n) (listeners s)
      \<and> length (closures s) = Suc ?n"
    if "s = ?st1 \<or> s = call_subscriber ?n (sel (current st)) ?st1" for s
  proof -
    have u: "distinct (listeners (unsubscribe h s')) \<and> list_all (\<lambda>m. m < ?n) (listeners (unsubscribe h s'))
        \<and> length (closures (unsubscribe h s')) = Suc ?n"
      if "distinct (listeners s') \<and> list_all (\<lambda>m. m < ?n) (listeners s')
        \<and> length (closures s') = Suc ?n" for h and s' :: "('a, 'b) store"
      using that set_remove1_subset [of h "listeners s'"]
      by (auto simp: unsubscribe_def list_all_iff)
    have f: "distinct (listeners (fold unsubscribe hs s')) \<and> list_all (\<lambda>m. m < ?n) (listeners (fold unsubscribe hs s'))
        \<and> length (closures (fold unsubscribe hs s')) = Suc ?n"
      if "distinct (listeners s') \<and> list_all (\<lambda>m. m < ?n) (listeners s')
        \<and> length (closures s') = Suc ?n" for hs and s' :: "('a, 'b) store"
      using that by (induction hs arbitrary: s') (simp_all add: u)
    have base: "distinct (listeners ?st1) \<and> list_all (\<lambda>m. m < ?n) (listeners ?st1)
        \<and> length (closures ?st1) = Suc ?n"
      using below d1 by simp
    show ?thesis
      using that
    proof
      assume "s = ?st1" then show ?thesis using base by simp
    next
      assume s: "s = call_subscriber ?n (sel (current st)) ?st1"
      have "distinct (listeners (?st1\<lparr>trace := trace ?st1 @ [Fired ?n (sel (current st))]\<rparr>))
          \<and> list_all (\<lambda>m. m < ?n) (listeners (?st1\<lparr>trace := trace ?st1 @ [Fired ?n (sel (current st))]\<rparr>))
          \<and> length (closures (?st1\<lparr>trace := trace ?st1 @ [Fired ?n (sel (current st))]\<rparr>)) = Suc ?n"
        using base by simp
      from f [OF this] show ?thesis
        unfolding s call_subscriber_def .
    qed
  qed
  define s2 where "s2 = (if (case options of None \<Rightarrow> False | Some opts \<Rightarrow> fireImmediately opts)
                 then call_subscriber ?n (sel (current st)) ?st1 else ?st1)"
  have k2: "distinct (listeners s2) \<and> list_all (\<lambda>m. m < ?n) (listeners s2)
      \<and> length (closures s2) = Suc ?n"
    by (rule keep) (simp add: s2_def)
  have r: "snd (subscribe sel sub options st) = s2\<lparr>listeners := listeners s2 @ [?n]\<rparr>"
    by (simp add: subscribe_def Let_def s2_def)
  show ?thesis
    unfolding r using k2 by (auto simp: registered_ok_def list_all_iff)
qed

lemma registered_ok_StoreImpl_exec:
  assumes "registered_ok st"
  shows "registered_ok (snd (StoreImpl_exec c st))"
proof -
  have p: "registered_ok (if 0 < length (listeners st) then StoreImpl_notifyListeners (st\<lparr>current := v, version := n\<rparr>)
      else st\<lparr>current := v, version := n\<rparr>)" for v n
    using registered_ok_fold_notify [OF registered_ok_commit [OF assms, where v = v and n = n]]
      registered_ok_commit [OF assms, where v = v and n = n]
    by (simp add: StoreImpl_notifyListeners_def)
  show ?thesis
    using assms p
    by (cases c)
      (simp_all add: StoreImpl_update_def StoreImpl_set_def StoreImpl_compute_def
        StoreImpl_batch_def Let_def split_def registered_ok_subscribe registered_ok_unsubscribe
        split: sum.splits)
qed

lemma registered_ok_exec:
  assumes "registered_ok st"
  shows "registered_ok (snd (exec c st))"
proof -
  have p: "registered_ok (notifyListeners (st\<lparr>current := v, version := n\<rparr>))" for v n
    unfolding notifyListeners_def
    by (rule registered_ok_notifyListeners_from) (rule registered_ok_commit [OF assms])
  show ?thesis
    using assms p
    by (cases c)
      (simp_all add: update_def set_store_def compute_def batch_def Let_def split_def
        registered_ok_subscribe registered_ok_unsubscribe split: sum.splits)
qed

lemma registered_ok_StoreImpl_run:
  "registered_ok st \<Longrightarrow> registered_ok (StoreImpl_run cs st)"
  by (induction cs arbitrary: st) (simp_all add: StoreImpl_run_def registered_ok_StoreImpl_exec)

lemma registered_ok_run:
  "registered_ok st \<Longrightarrow> registered_ok (run cs st)"
  by (induction cs arbitrary: st) (simp_all add: run_def registered_ok_exec)

lemma registered_ok_new: "registered_ok (StoreImpl init)" "registered_ok (createStore init)"
  by (simp_all add: registered_ok_def StoreImpl_def createStore_def)

lemma exec_not_mutation:
  "\<not> is_mutation c \<Longrightarrow>
     version (snd (exec c st)) = version st \<and> current (snd (exec c st)) = current st"
  "\<not> is_mutation c \<Longrightarrow>
     version (snd (StoreImpl_exec c st)) = version st
     \<and> current (snd (StoreImpl_exec c st)) = current st"
  by (cases c; simp add: subscribe_def Let_def)+

section \<open>Transaction scopes: staging, committing, rolling back\<close>

lemma tx_exec_staged:
  "is_staged c \<Longrightarrow> snd (snd (tx_exec S c (tx, st))) = st"
  "is_staged c \<Longrightarrow> tx_initial (fst (snd (tx_exec S c (tx, st)))) = tx_initial tx"
  by (cases c; simp add: tx_apply_def tx_compute_def tx_set_def split: sum.splits)+

lemma tx_run_Cons: "tx_run S (c # cs) w = tx_run S cs (snd (tx_exec S c w))"
  by (simp add: tx_run_def)

lemma tx_run_Nil: "tx_run S [] w = w"
  by (simp add: tx_run_def)

lemma tx_run_append: "tx_run S (cs @ ds) w = tx_run S ds (tx_run S cs w)"
  by (simp add: tx_run_def)

lemma tx_run_staged:
  "list_all is_staged cs \<Longrightarrow>
     snd (tx_run S cs (tx, st)) = st \<and> tx_initial (fst (tx_run S cs (tx, st))) = tx_initial tx"
proof (induction cs arbitrary: tx)
  case Nil
  show ?case by (simp add: tx_run_Nil)
next
  case (Cons c cs)
  obtain tx' where w: "snd (tx_exec S c (tx, st)) = (tx', st)" and i: "tx_initial tx' = tx_initial tx"
    using tx_exec_staged [of c S tx st] Cons.prems
    by (cases "snd (tx_exec S c (tx, st))") simp
  show ?case
    using Cons.IH [of tx'] Cons.prems by (simp add: tx_run_Cons w i)
qed

lemma tx_exec_initial: "tx_initial (fst (snd (tx_exec S c (tx, st)))) = tx_initial tx"
  by (cases c)
    (simp_all add: tx_apply_def tx_compute_def tx_set_def rollback_def commit_def
      split: sum.splits prod.splits)

lemma tx_run_initial: "tx_initial (fst (tx_run S cs w)) = tx_initial (fst w)"
proof (induction cs arbitrary: w)
  case Nil
  show ?case by (simp add: tx_run_Nil)
next
  case (Cons c cs)
  have "tx_initial (fst (snd (tx_exec S c w))) = tx_initial (fst w)"
    using tx_exec_initial [of S c "fst w" "snd w"] by simp
  then show ?case
    using Cons.IH [of "snd (tx_exec S c w)"] by (simp add: tx_run_Cons)
qed

lemma tx_run_applies:
  "apply_in_order (tx_next tx) rps = Inr v \<Longrightarrow>
     tx_next (fst (tx_run S (map (\<lambda>(r, p). TxApply r p) rps) (tx, st))) = v"
proof (induction rps arbitrary: tx)
  case Nil
  then show ?case by (simp add: tx_run_Nil)
next
  case (Cons rp rps)
  obtain r p where rp: "rp = (r, p)" by (cases rp)
  from Cons.prems obtain n where n: "r (tx_next tx) p = Inr n" and rest: "apply_in_order n rps = Inr v"
    by (auto simp: rp split: sum.splits)
  have step: "snd (tx_exec S (TxApply r p) (tx, st)) = (tx\<lparr>tx_next := n\<rparr>, st)"
    by (simp add: tx_apply_def n)
  show ?case
    using Cons.IH [of "tx\<lparr>tx_next := n\<rparr>"] rest
    by (simp add: rp tx_run_Cons step del: tx_exec.simps)
qed

lemma commit_closure_based:
  "commit closure_based tx st
     = (Inr (tx_next tx), notifyListeners (st\<lparr>current := tx_next tx, version := version st + 1\<rparr>))"
  by (simp add: commit_def closure_based_def set_store_eq read_def)

lemma commit_class_based:
  "commit class_based tx st
     = (Inr (tx_next tx),
        StoreImpl_notifyListeners (st\<lparr>current := tx_next tx, version := version st + 1\<rparr>))"
  by (simp add: commit_def class_based_def StoreImpl_set_eq read_def)

lemma tx_exec_version_closure:
  "version (snd (snd (tx_exec closure_based c (tx, st)))) = version st + (if is_commit c then 1 else 0)"
  by (cases c)
    (simp_all add: commit_closure_based tx_apply_def tx_compute_def tx_set_def rollback_def
      split: sum.splits)

lemma tx_exec_version_class:
  "version (snd (snd (tx_exec class_based c (tx, st)))) = version st + (if is_commit c then 1 else 0)"
  by (cases c)
    (simp_all add: commit_class_based tx_apply_def tx_compute_def tx_set_def rollback_def
      split: sum.splits)

lemma tx_run_version_closure:
  "version (snd (tx_run closure_based cs (tx, st))) = version st + length (filter is_commit cs)"
proof (induction cs arbitrary: tx st)
  case Nil
  show ?case by (simp add: tx_run_Nil)
next
  case (Cons c cs)
  obtain tx' st' where w: "snd (tx_exec closure_based c (tx, st)) = (tx', st')"
    by (cases "snd (tx_exec closure_based c (tx, st))")
  have "version st' = version st + (if is_commit c then 1 else 0)"
    using tx_exec_version_closure [of c tx st] by (simp add: w)
  then show ?case
    using Cons.IH [of tx' st'] by (simp add: tx_run_Cons w)
qed

lemma tx_run_version_class:
  "version (snd (tx_run class_based cs (tx, st))) = version st + length (filter is_commit cs)"
proof (induction cs arbitrary: tx st)
  case Nil
  show ?case by (simp add: tx_run_Nil)
next
  case (Cons c cs)
  obtain tx' st' where w: "snd (tx_exec class_based c (tx, st)) = (tx', st')"
    by (cases "snd (tx_exec class_based c (tx, st))")
  have "version st' = version st + (if is_commit c then 1 else 0)"
    using tx_exec_version_class [of c tx st] by (simp add: w)
  then show ?case
    using Cons.IH [of tx' st'] by (simp add: tx_run_Cons w)
qed

section \<open>The composite view: unsubscribing steps, and the subscriber loop terminates\<close>

lemma settles_refl: "settles w w"
  by (simp add: settles_def)

lemma settles_trans: "settles w w' \<Longrightarrow> settles w' w'' \<Longrightarrow> settles w w''"
  unfolding settles_def by (elim conjE, intro conjI allI) (auto dest: spec)

lemma set_listeners_unsubscribe: "set (listeners (unsubscribe n st)) \<subseteq> set (listeners st)"
  using set_remove1_subset [of n "listeners st"] by (simp add: unsubscribe_def)

lemma settles_childUnsub:
  "childUnsubs w = None \<Longrightarrow> settles w (childUnsub u w) \<and> childUnsubs (childUnsub u w) = None"
  by (cases u) (simp add: settles_def set_listeners_unsubscribe)

lemma settles_fold_childUnsub:
  "childUnsubs w = None \<Longrightarrow>
     settles w (fold childUnsub us w) \<and> childUnsubs (fold childUnsub us w) = None"
proof (induction us arbitrary: w)
  case Nil
  then show ?case by (simp add: settles_refl)
next
  case (Cons u us)
  have a: "settles w (childUnsub u w)" and b: "childUnsubs (childUnsub u w) = None"
    using settles_childUnsub [OF Cons.prems, of u] by simp_all
  show ?case
    using Cons.IH [OF b] settles_trans [OF a] by simp
qed

lemma childUnsub_commute:
  "(childUnsub u w)\<lparr>childUnsubs := c\<rparr> = childUnsub u (w\<lparr>childUnsubs := c\<rparr>)"
  by (cases u) simp

lemma fold_childUnsub_commute:
  "(fold childUnsub us w)\<lparr>childUnsubs := c\<rparr> = fold childUnsub us (w\<lparr>childUnsubs := c\<rparr>)"
  by (induction us arbitrary: w) (simp_all add: childUnsub_commute)

lemma settles_detach: "settles w (detach w) \<and> childUnsubs (detach w) = None"
proof (cases "childUnsubs w")
  case None
  then show ?thesis by (simp add: detach_def settles_refl)
next
  case (Some us)
  let ?w0 = "w\<lparr>childUnsubs := None\<rparr>"
  have a: "settles w ?w0"
    by (simp add: settles_def)
  have "settles ?w0 (fold childUnsub us ?w0) \<and> childUnsubs (fold childUnsub us ?w0) = None"
    by (rule settles_fold_childUnsub) simp
  then show ?thesis
    using settles_trans [OF a] by (simp add: detach_def Some fold_childUnsub_commute)
qed

lemma settles_Combined_unsubscribe: "settles w (Combined_unsubscribe n w)"
proof -
  let ?w1 = "if n \<in> set (subscribers w) then w\<lparr>subscribers := remove1 n (subscribers w)\<rparr> else w"
  have a: "settles w ?w1"
    by (simp add: settles_def length_remove1)
  have b: "settles ?w1 (if length (subscribers ?w1) = 0 then detach ?w1 else ?w1)"
    using settles_detach [of ?w1] by (simp add: settles_refl)
  show ?thesis
    using settles_trans [OF a b] by (simp add: Combined_unsubscribe_def Let_def)
qed

lemma settles_fold_Combined_unsubscribe: "settles w (fold Combined_unsubscribe hs w)"
proof (induction hs arbitrary: w)
  case Nil
  show ?case by (simp add: settles_refl)
next
  case (Cons h hs)
  show ?case
    using settles_trans [OF settles_Combined_unsubscribe [of w h] Cons.IH [of "Combined_unsubscribe h w"]]
    by simp
qed

lemma settles_Combined_call_subscriber: "settles w (Combined_call_subscriber n a w)"
proof -
  have a: "settles w (w\<lparr>delivered := delivered w @ [(n, a)]\<rparr>)"
    by (simp add: settles_def)
  show ?thesis
    unfolding Combined_call_subscriber_def
    by (rule settles_trans [OF a settles_fold_Combined_unsubscribe])
qed

lemma settles_Combined_notify: "settles w (Combined_notify n w)"
proof -
  have a: "settles w (w\<lparr>combined_closures := cs\<rparr>)" for cs
    by (simp add: settles_def)
  show ?thesis
    using settles_trans [OF a settles_Combined_call_subscriber]
    by (simp add: Combined_notify_def Let_def settles_refl)
qed

termination notifyAll_from
proof (relation "measure (\<lambda>(i, w). length (subscribers w) - i)")
  show "wf (measure (\<lambda>(i, w :: 'a world). length (subscribers w) - i))"
    by simp
next
  fix i and w :: "'a world"
  assume "i < length (subscribers w)"
  moreover have "length (subscribers (Combined_notify (subscribers w ! i) w)) \<le> length (subscribers w)"
    using settles_Combined_notify [of w "subscribers w ! i"] by (simp add: settles_def)
  ultimately show "((Suc i, Combined_notify (subscribers w ! i) w), (i, w))
      \<in> measure (\<lambda>(i, w). length (subscribers w) - i)"
    by simp
qed

declare notifyAll_from.simps [simp del]

lemma settles_notifyAll_from: "settles w (notifyAll_from i w)"
proof (induction i w rule: notifyAll_from.induct)
  case (1 i w)
  show ?case
  proof (cases "i < length (subscribers w)")
    case True
    have "settles w (notifyAll_from (Suc i) (Combined_notify (subscribers w ! i) w))"
      using settles_trans [OF settles_Combined_notify "1.IH" [OF True]] .
    then show ?thesis
      using True by (subst notifyAll_from.simps) simp
  next
    case False
    then show ?thesis
      by (subst notifyAll_from.simps) (simp add: settles_refl)
  qed
qed

lemma settles_notifyAll: "settles w (notifyAll w)"
  by (simp add: notifyAll_def settles_notifyAll_from)

section \<open>The composite view: what holds between two calls\<close>

lemma members_ok_settles:
  assumes "members_ok w" and "settles w w'"
  shows "members_ok w'"
proof -
  have a: "ref (agg w') < fresh w'"
    using assms by (simp add: members_ok_def settles_def)
  have b: "list_all (member_listener_ok (stores w' k)) (listeners (stores w' k))" for k
  proof -
    have "list_all (member_listener_ok (stores w k)) (listeners (stores w k))"
      using assms(1) by (simp add: members_ok_def)
    moreover have "set (listeners (stores w' k)) \<subseteq> set (listeners (stores w k))"
      and "closures (stores w' k) = closures (stores w k)"
      and "current (stores w' k) = current (stores w k)"
      using assms(2) by (simp_all add: settles_def)
    ultimately show ?thesis
      by (auto simp: list_all_iff member_listener_ok_def)
  qed
  have c: "childUnsubs w' = None \<or> list_all (\<lambda>k. listeners (stores w' k) \<noteq> []) (keys w')"
    using assms by (auto simp: members_ok_def settles_def)
  show ?thesis
    using a b c by (simp add: members_ok_def)
qed

lemma in_sync_settles:
  assumes "in_sync w" and "settles w w'"
  shows "in_sync w'"
  using assms by (simp add: in_sync_def settles_def)

lemma subscribe_member:
  "subscribe (\<lambda>x. x) (\<lambda>tr v. []) None st
     = (length (closures st),
        st\<lparr>closures := closures st @ [\<lparr>selector = (\<lambda>x. x), eq = (=), prev = current st,
                                        subscriber = (\<lambda>tr v. [])\<rparr>],
           listeners := listeners st @ [length (closures st)]\<rparr>)"
  by (simp add: subscribe_def Let_def)

lemma member_listener_ok_subscribe:
  assumes "list_all (member_listener_ok st) (listeners st)"
  shows "list_all (member_listener_ok (snd (subscribe (\<lambda>x. x) (\<lambda>tr v. []) None st)))
           (listeners (snd (subscribe (\<lambda>x. x) (\<lambda>tr v. []) None st)))"
  using assms
  by (auto simp: subscribe_member list_all_iff member_listener_ok_def nth_append)

text \<open>What attaching the keys one after the other keeps and establishes.\<close>

lemma fold_attach_key:
  assumes "\<forall>k. list_all (member_listener_ok (stores w k)) (listeners (stores w k))"
  shows "agg (snd (fold attach_key ks (us, w))) = agg w
    \<and> fresh (snd (fold attach_key ks (us, w))) = fresh w
    \<and> keys (snd (fold attach_key ks (us, w))) = keys w
    \<and> subscribers (snd (fold attach_key ks (us, w))) = subscribers w
    \<and> combined_closures (snd (fold attach_key ks (us, w))) = combined_closures w
    \<and> delivered (snd (fold attach_key ks (us, w))) = delivered w
    \<and> (\<forall>k. current (stores (snd (fold attach_key ks (us, w))) k) = current (stores w k))
    \<and> (\<forall>k. list_all (member_listener_ok (stores (snd (fold attach_key ks (us, w))) k))
              (listeners (stores (snd (fold attach_key ks (us, w))) k)))
    \<and> (\<forall>k. listeners (stores w k) \<noteq> [] \<or> k \<in> set ks
              \<longrightarrow> listeners (stores (snd (fold attach_key ks (us, w))) k) \<noteq> [])"
  using assms
proof (induction ks arbitrary: us w)
  case Nil
  then show ?case by simp
next
  case (Cons k ks)
  let ?st' = "snd (subscribe (\<lambda>x. x) (\<lambda>tr v. []) None (stores w k))"
  let ?w1 = "w\<lparr>stores := (stores w)(k := ?st')\<rparr>"
  have step: "attach_key k (us, w) = (us @ [(k, length (closures (stores w k)))], ?w1)"
    by (simp add: subscribe_member)
  have ok: "\<forall>j. list_all (member_listener_ok (stores ?w1 j)) (listeners (stores ?w1 j))"
    using Cons.prems member_listener_ok_subscribe [of "stores w k"] by simp
  have cur: "current (stores ?w1 j) = current (stores w j)" for j
    by (simp add: subscribe_member)
  have ne: "listeners (stores ?w1 k) \<noteq> []"
    by (simp add: subscribe_member)
  have ne': "listeners (stores w j) \<noteq> [] \<Longrightarrow> listeners (stores ?w1 j) \<noteq> []" for j
    by (simp add: subscribe_member)
  note ih = Cons.IH [OF ok, of "us @ [(k, length (closures (stores w k)))]"]
  show ?case
    unfolding fold_simps step
    using ih cur ne ne' by (auto simp del: fun_upd_apply)
qed

lemma attach_keeps:
  assumes "members_ok w"
  shows "members_ok (attach w) \<and> agg (attach w) = agg w \<and> keys (attach w) = keys w
    \<and> subscribers (attach w) = subscribers w
    \<and> (\<forall>k. current (stores (attach w) k) = current (stores w k))
    \<and> childUnsubs (attach w) \<noteq> None"
proof (cases "childUnsubs w = None")
  case False
  then show ?thesis using assms by (simp add: attach_def)
next
  case True
  have ok: "\<forall>k. list_all (member_listener_ok (stores w k)) (listeners (stores w k))"
    using assms by (simp add: members_ok_def)
  obtain us w' where f: "fold attach_key (keys w) ([], w) = (us, w')"
    by (cases "fold attach_key (keys w) ([], w)")
  have a: "attach w = w'\<lparr>childUnsubs := Some us\<rparr>"
    using True by (simp add: attach_def f)
  note k = fold_attach_key [OF ok, of "keys w" "[]", unfolded f snd_conv]
  have "list_all (\<lambda>k. listeners (stores w' k) \<noteq> []) (keys w')"
    using k by (simp add: list_all_iff)
  then show ?thesis
    using k assms by (simp add: a members_ok_def)
qed

section \<open>The composite view: a pass of a member store\<close>

lemma member_changed_eq:
  "member_changed k w =
     (if ref (agg w) \<noteq> fresh w
      then notifyAll (w\<lparr>fresh := Suc (fresh w),
             agg := \<lparr>ref = fresh w, slots = (slots (agg w))(k \<mapsto> current (stores w k))\<rparr>\<rparr>)
      else w\<lparr>fresh := Suc (fresh w)\<rparr>)"
  by (simp add: member_changed_def Let_def snapshot_def)

lemma member_changed_frame:
  "keys (member_changed k w) = keys w"
  "current (stores (member_changed k w) j) = current (stores w j)"
  "version (stores (member_changed k w) j) = version (stores w j)"
  "closures (stores (member_changed k w) j) = closures (stores w j)"
  "set (listeners (stores (member_changed k w) j)) \<subseteq> set (listeners (stores w j))"
  using settles_notifyAll [of "w\<lparr>fresh := Suc (fresh w),
      agg := \<lparr>ref = fresh w, slots = (slots (agg w))(k \<mapsto> current (stores w k))\<rparr>\<rparr>"]
  by (simp_all add: member_changed_eq settles_def)

lemma member_changed_slots:
  "j \<noteq> k \<Longrightarrow> slots (agg (member_changed k w)) j = slots (agg w) j"
  "slots (agg w) k = Some (current (stores w k))
     \<Longrightarrow> slots (agg (member_changed k w)) k = Some (current (stores w k))"
  "ref (agg w) \<noteq> fresh w \<Longrightarrow> slots (agg (member_changed k w)) k = Some (current (stores w k))"
  "ref (agg w) \<noteq> fresh w \<Longrightarrow> ref (agg (member_changed k w)) = fresh w"
  using settles_notifyAll [of "w\<lparr>fresh := Suc (fresh w),
      agg := \<lparr>ref = fresh w, slots = (slots (agg w))(k \<mapsto> current (stores w k))\<rparr>\<rparr>"]
  by (simp_all add: member_changed_eq settles_def)

lemma member_notify_frame:
  "keys (member_notify k n w) = keys w"
  "current (stores (member_notify k n w) j) = current (stores w j)"
  "version (stores (member_notify k n w) j) = version (stores w j)"
  "length (closures (stores (member_notify k n w) j)) = length (closures (stores w j))"
  by (simp_all add: member_notify_def Let_def member_changed_frame)

lemma member_notify_slots:
  "j \<noteq> k \<Longrightarrow> slots (agg (member_notify k n w)) j = slots (agg w) j"
  "slots (agg w) k = Some (current (stores w k))
     \<Longrightarrow> slots (agg (member_notify k n w)) k = Some (current (stores w k))"
  by (simp_all add: member_notify_def Let_def member_changed_slots member_changed_frame)

lemma member_notify_fires:
  assumes "\<not> eq (closures (stores w k) ! n) (prev (closures (stores w k) ! n))
        (selector (closures (stores w k) ! n) (current (stores w k)))"
    and "ref (agg w) \<noteq> fresh w"
  shows "slots (agg (member_notify k n w)) k = Some (current (stores w k))"
    and "ref (agg (member_notify k n w)) = fresh w"
  using assms by (simp_all add: member_notify_def Let_def member_changed_slots)

lemma member_notify_quiet:
  assumes "eq (closures (stores w k) ! n) (prev (closures (stores w k) ! n))
        (selector (closures (stores w k) ! n) (current (stores w k)))"
  shows "member_notify k n w
      = w\<lparr>stores := (stores w)(k := (stores w k)\<lparr>trace := trace (stores w k) @ [Notified n]\<rparr>)\<rparr>"
  using assms by (simp add: member_notify_def Let_def)

lemma fold_member_notify_frame:
  "keys (fold (member_notify k) ns w) = keys w"
  "current (stores (fold (member_notify k) ns w) j) = current (stores w j)"
  "version (stores (fold (member_notify k) ns w) j) = version (stores w j)"
  by (induction ns arbitrary: w) (simp_all add: member_notify_frame)

lemma fold_member_notify_other_slots:
  "j \<noteq> k \<Longrightarrow> slots (agg (fold (member_notify k) ns w)) j = slots (agg w) j"
  by (induction ns arbitrary: w) (simp_all add: member_notify_slots)

lemma fold_member_notify_slot_kept:
  "slots (agg w) k = Some (current (stores w k))
     \<Longrightarrow> slots (agg (fold (member_notify k) ns w)) k = Some (current (stores w k))"
proof (induction ns arbitrary: w)
  case Nil
  then show ?case by simp
next
  case (Cons n ns)
  have "slots (agg (member_notify k n w)) k = Some (current (stores (member_notify k n w) k))"
    using Cons.prems by (simp add: member_notify_slots member_notify_frame)
  from Cons.IH [OF this] show ?case
    by (simp add: member_notify_frame)
qed


lemma pass_ok_settles:
  assumes "pass_ok k rem w" and "settles w w'"
  shows "pass_ok k rem w'"
proof -
  have sub: "set (listeners (stores w' j)) \<subseteq> set (listeners (stores w j))"
    and cl: "closures (stores w' j) = closures (stores w j)"
    and cu: "current (stores w' j) = current (stores w j)" for j
    using assms(2) by (simp_all add: settles_def)
  have a: "ref (agg w') < fresh w'"
    using assms by (simp add: pass_ok_def settles_def)
  have b: "j = k \<or> list_all (member_listener_ok (stores w' j)) (listeners (stores w' j))" for j
  proof (cases "j = k")
    case False
    then have "list_all (member_listener_ok (stores w j)) (listeners (stores w j))"
      using assms(1) by (auto simp: pass_ok_def)
    then show ?thesis
      using sub [of j] by (auto simp: list_all_iff member_listener_ok_def cl cu)
  qed simp
  have c: "childUnsubs w' = None \<or> list_all (\<lambda>k. listeners (stores w' k) \<noteq> []) (keys w')"
    using assms by (auto simp: pass_ok_def settles_def)
  have d: "list_all (\<lambda>n. n \<in> set rem \<or> member_listener_ok (stores w' k) n) (listeners (stores w' k))"
    using assms(1) sub [of k] by (auto simp: pass_ok_def list_all_iff member_listener_ok_def cl cu)
  have e: "list_all (\<lambda>n. n < length (closures (stores w' k))
                      \<and> selector (closures (stores w' k) ! n) = (\<lambda>x. x)
                      \<and> eq (closures (stores w' k) ! n) = (=)) (listeners (stores w' k))"
    using assms(1) sub [of k] by (auto simp: pass_ok_def list_all_iff cl)
  show ?thesis
    unfolding pass_ok_def using a b c d e by blast
qed

lemma nth_list_update_any:
  "(xs[n := y]) ! m = (if m = n \<and> n < length xs then y else xs ! m)"
  by (cases "n < length xs") (auto simp: nth_list_update list_update_beyond)

lemma pass_ok_step:
  assumes "pass_ok k (n # rem) w"
  shows "pass_ok k rem (member_notify k n w)"
proof -
  let ?st = "stores w k"
  let ?c = "closures ?st ! n"
  let ?nxt = "selector ?c (current ?st)"
  have lt: "ref (agg w) < fresh w"
    and oth: "\<And>j. j = k \<or> list_all (member_listener_ok (stores w j)) (listeners (stores w j))"
    and att: "childUnsubs w = None \<or> list_all (\<lambda>k. listeners (stores w k) \<noteq> []) (keys w)"
    and reg: "list_all (\<lambda>m. m \<in> set (n # rem) \<or> member_listener_ok ?st m) (listeners ?st)"
    and shape: "list_all (\<lambda>m. m < length (closures ?st) \<and> selector (closures ?st ! m) = (\<lambda>x. x)
                      \<and> eq (closures ?st ! m) = (=)) (listeners ?st)"
    using assms by (simp_all add: pass_ok_def)
  show ?thesis
  proof (cases "eq ?c (prev ?c) ?nxt")
    case True
    let ?w1 = "w\<lparr>stores := (stores w)(k := ?st\<lparr>trace := trace ?st @ [Notified n]\<rparr>)\<rparr>"
    have q: "member_notify k n w = ?w1"
      using True by (simp add: member_notify_quiet)
    have n_ok: "member_listener_ok ?st n" if "n \<in> set (listeners ?st)"
      using that shape True by (auto simp: list_all_iff member_listener_ok_def)
    have d: "list_all (\<lambda>m. m \<in> set rem \<or> member_listener_ok (stores ?w1 k) m) (listeners (stores ?w1 k))"
      using reg n_ok by (auto simp: list_all_iff member_listener_ok_def)
    have b: "j = k \<or> list_all (member_listener_ok (stores ?w1 j)) (listeners (stores ?w1 j))" for j
      using oth [of j] by auto
    have c: "childUnsubs ?w1 = None \<or> list_all (\<lambda>k. listeners (stores ?w1 k) \<noteq> []) (keys ?w1)"
      using att by (auto simp: list_all_iff)
    have e: "list_all (\<lambda>m. m < length (closures (stores ?w1 k))
                      \<and> selector (closures (stores ?w1 k) ! m) = (\<lambda>x. x)
                      \<and> eq (closures (stores ?w1 k) ! m) = (=)) (listeners (stores ?w1 k))"
      using shape by simp
    have "pass_ok k rem ?w1"
      unfolding pass_ok_def using lt b c d e by simp
    then show ?thesis
      by (simp add: q)
  next
    case False
    let ?st1 = "?st\<lparr>trace := trace ?st @ [Notified n],
                    closures := (closures ?st)[n := ?c\<lparr>prev := ?nxt\<rparr>],
                    trace := (trace ?st @ [Notified n]) @ [Fired n ?nxt]\<rparr>"
    let ?wa = "w\<lparr>stores := (stores w)(k := ?st1)\<rparr>"
    let ?wb = "?wa\<lparr>fresh := Suc (fresh ?wa),
        agg := \<lparr>ref = fresh ?wa, slots = (slots (agg ?wa))(k \<mapsto> current (stores ?wa k))\<rparr>\<rparr>"
    have f: "member_notify k n w = notifyAll ?wb"
      using False lt by (simp add: member_notify_def Let_def member_changed_eq)
    have d: "list_all (\<lambda>m. m \<in> set rem \<or> member_listener_ok (stores ?wb k) m) (listeners (stores ?wb k))"
      unfolding list_all_iff
    proof
      fix m assume m: "m \<in> set (listeners (stores ?wb k))"
      then have mreg: "m \<in> set (listeners ?st)" by simp
      have msh: "m < length (closures ?st)" "selector (closures ?st ! m) = (\<lambda>x. x)"
        "eq (closures ?st ! m) = (=)"
        using shape mreg by (auto simp: list_all_iff)
      show "m \<in> set rem \<or> member_listener_ok (stores ?wb k) m"
      proof (cases "m = n")
        case True
        then show ?thesis
          using msh by (simp add: member_listener_ok_def)
      next
        case ne: False
        have "m \<in> set (n # rem) \<or> member_listener_ok ?st m"
          using reg mreg by (auto simp: list_all_iff)
        then show ?thesis
          using ne by (auto simp: member_listener_ok_def)
      qed
    qed
    have b: "j = k \<or> list_all (member_listener_ok (stores ?wb j)) (listeners (stores ?wb j))" for j
      using oth [of j] by auto
    have c: "childUnsubs ?wb = None \<or> list_all (\<lambda>k. listeners (stores ?wb k) \<noteq> []) (keys ?wb)"
      using att by (auto simp: list_all_iff)
    have e: "list_all (\<lambda>m. m < length (closures (stores ?wb k))
                      \<and> selector (closures (stores ?wb k) ! m) = (\<lambda>x. x)
                      \<and> eq (closures (stores ?wb k) ! m) = (=)) (listeners (stores ?wb k))"
      using shape by (auto simp: list_all_iff nth_list_update_any)
    have "pass_ok k rem ?wb"
      unfolding pass_ok_def using b c d e by simp
    then show ?thesis
      unfolding f by (rule pass_ok_settles) (rule settles_notifyAll)
  qed
qed

lemma pass_ok_fold:
  "pass_ok k (ns @ rem) w \<Longrightarrow> pass_ok k rem (fold (member_notify k) ns w)"
proof (induction ns arbitrary: w)
  case Nil
  then show ?case by simp
next
  case (Cons n ns)
  have "pass_ok k (ns @ rem) (member_notify k n w)"
    using Cons.prems pass_ok_step [of k n "ns @ rem" w] by simp
  from Cons.IH [OF this] show ?case by simp
qed

lemma pass_ok_start:
  assumes "members_ok w"
  shows "pass_ok k (listeners (stores w k))
           (w\<lparr>stores := (stores w)(k := (stores w k)\<lparr>current := v, version := version (stores w k) + 1\<rparr>)\<rparr>)"
proof -
  have ok: "list_all (member_listener_ok (stores w j)) (listeners (stores w j))" for j
    using assms by (simp add: members_ok_def)
  have "list_all (\<lambda>n. n < length (closures (stores w k))
                      \<and> selector (closures (stores w k) ! n) = (\<lambda>x. x)
                      \<and> eq (closures (stores w k) ! n) = (=)) (listeners (stores w k))"
    using ok [of k] by (auto simp: list_all_iff member_listener_ok_def)
  moreover have "childUnsubs w = None \<or> list_all (\<lambda>k. listeners (stores w k) \<noteq> []) (keys w)"
    using assms by (simp add: members_ok_def)
  moreover have "ref (agg w) < fresh w"
    using assms by (simp add: members_ok_def)
  ultimately show ?thesis
    unfolding pass_ok_def using ok by (auto simp: list_all_iff)
qed

lemma pass_ok_end: "pass_ok k [] w \<Longrightarrow> members_ok w"
  unfolding pass_ok_def members_ok_def
  by (metis (mono_tags, lifting) list.pred_mono_strong empty_iff list.set(1))

lemma member_set_eq:
  "member_set k v w = member_notifyListeners k
     (w\<lparr>stores := (stores w)(k := (stores w k)\<lparr>current := v, version := version (stores w k) + 1\<rparr>)\<rparr>)"
  by (simp add: member_set_def Let_def member_notifyListeners_def)

lemma members_ok_member_set:
  assumes "members_ok w"
  shows "members_ok (member_set k v w)"
proof -
  let ?w1 = "w\<lparr>stores := (stores w)(k := (stores w k)\<lparr>current := v, version := version (stores w k) + 1\<rparr>)\<rparr>"
  have "pass_ok k (listeners (stores ?w1 k) @ []) ?w1"
    using pass_ok_start [OF assms, of k v] by simp
  then have "pass_ok k [] (fold (member_notify k) (listeners (stores ?w1 k)) ?w1)"
    by (rule pass_ok_fold)
  then show ?thesis
    unfolding member_set_eq member_notifyListeners_def by (rule pass_ok_end)
qed

section \<open>The composite view: the aggregate along calls\<close>

lemma members_ok_upd [simp]:
  "members_ok (w\<lparr>combined_closures := c\<rparr>) = members_ok w"
  "members_ok (w\<lparr>subscribers := s\<rparr>) = members_ok w"
  "members_ok (w\<lparr>delivered := d\<rparr>) = members_ok w"
  by (simp_all add: members_ok_def)

lemma Combined_subscribe_keeps:
  assumes "members_ok w"
  shows "members_ok (snd (Combined_subscribe sub options w))"
    and "agg (snd (Combined_subscribe sub options w)) = agg w"
    and "keys (snd (Combined_subscribe sub options w)) = keys w"
    and "current (stores (snd (Combined_subscribe sub options w)) k) = current (stores w k)"
proof -
  define w1 where "w1 = (if childUnsubs w = None then attach w else w)"
  define e where "e = (case options of None \<Rightarrow> (\<lambda>a b. ref a = ref b)
               | Some opts \<Rightarrow>
                   (case opt_eq opts of None \<Rightarrow> (\<lambda>a b :: 'a aggregate. ref a = ref b) | Some f \<Rightarrow> f))"
  define w2 where "w2 = w1\<lparr>combined_closures :=
      combined_closures w1 @ [\<lparr>c_eq = e, c_prev = agg w1, c_subscriber = sub\<rparr>]\<rparr>"
  define w3 where "w3 = (if (case options of None \<Rightarrow> False | Some opts \<Rightarrow> fireImmediately opts)
                then Combined_call_subscriber (length (combined_closures w1)) (agg w1) w2 else w2)"
  have r: "snd (Combined_subscribe sub options w) = w3\<lparr>subscribers := subscribers w3 @ [length (combined_closures w1)]\<rparr>"
    by (simp add: Combined_subscribe_def Let_def w1_def w2_def w3_def e_def)
  have a1: "members_ok w1 \<and> agg w1 = agg w \<and> keys w1 = keys w
      \<and> (\<forall>k. current (stores w1 k) = current (stores w k))"
    using attach_keeps [OF assms] assms by (simp add: w1_def)
  have a2: "members_ok w2 \<and> agg w2 = agg w \<and> keys w2 = keys w
      \<and> (\<forall>k. current (stores w2 k) = current (stores w k))"
    using a1 by (simp add: w2_def)
  have s: "settles w2 w3"
    by (simp add: w3_def settles_refl settles_Combined_call_subscriber)
  have a3: "members_ok w3 \<and> agg w3 = agg w \<and> keys w3 = keys w
      \<and> (\<forall>k. current (stores w3 k) = current (stores w k))"
    using a2 members_ok_settles [OF _ s] s by (simp add: settles_def)
  show "members_ok (snd (Combined_subscribe sub options w))"
    using a3 by (simp add: r)
  show "agg (snd (Combined_subscribe sub options w)) = agg w"
    using a3 by (simp add: r)
  show "keys (snd (Combined_subscribe sub options w)) = keys w"
    using a3 by (simp add: r)
  show "current (stores (snd (Combined_subscribe sub options w)) k) = current (stores w k)"
    using a3 by (simp add: r)
qed

lemma in_sync_Combined_subscribe:
  assumes "members_ok w" and "in_sync w"
  shows "in_sync (snd (Combined_subscribe sub options w))"
  using assms(2) Combined_subscribe_keeps(2-4) [OF assms(1), of sub options]
  by (simp add: in_sync_def)

lemma in_sync_member_set:
  assumes ok: "members_ok w" and sync: "in_sync w" and att: "childUnsubs w \<noteq> None"
  shows "in_sync (member_set k v w)"
proof -
  let ?st1 = "(stores w k)\<lparr>current := v, version := version (stores w k) + 1\<rparr>"
  let ?w1 = "w\<lparr>stores := (stores w)(k := ?st1)\<rparr>"
  let ?ns = "listeners (stores w k)"
  let ?w' = "fold (member_notify k) ?ns ?w1"
  have r: "member_set k v w = ?w'"
    by (simp add: member_set_eq member_notifyListeners_def)
  have other: "slots (agg ?w') j = Some (current (stores ?w' j))"
    if "j \<in> set (keys w)" and "j \<noteq> k" for j
    using that sync
    by (simp add: fold_member_notify_other_slots fold_member_notify_frame in_sync_def list_all_iff)
  have this_key: "slots (agg ?w') k = Some (current (stores ?w' k))" if kk: "k \<in> set (keys w)"
  proof (cases "v = current (stores w k)")
    case True
    have "slots (agg ?w1) k = Some (current (stores ?w1 k))"
      using sync kk True by (simp add: in_sync_def list_all_iff)
    from fold_member_notify_slot_kept [OF this, of ?ns] show ?thesis
      by (simp add: fold_member_notify_frame)
  next
    case False
    have "?ns \<noteq> []"
      using ok att kk by (auto simp: members_ok_def list_all_iff)
    then obtain n rest where ns: "?ns = n # rest"
      by (cases ?ns) auto
    have nok: "member_listener_ok (stores w k) n"
      using ok ns by (simp add: members_ok_def list_all_iff)
    have lt: "ref (agg ?w1) \<noteq> fresh ?w1"
      using ok by (simp add: members_ok_def)
    have fire: "\<not> eq (closures (stores ?w1 k) ! n) (prev (closures (stores ?w1 k) ! n))
        (selector (closures (stores ?w1 k) ! n) (current (stores ?w1 k)))"
      using nok False by (auto simp: member_listener_ok_def)
    have first: "slots (agg (member_notify k n ?w1)) k = Some (current (stores (member_notify k n ?w1) k))"
      using member_notify_fires(1) [OF fire lt] by (simp add: member_notify_frame)
    from fold_member_notify_slot_kept [OF first, of rest] show ?thesis
      by (simp add: ns fold_member_notify_frame member_notify_frame)
  qed
  have "keys ?w' = keys w"
    by (simp add: fold_member_notify_frame)
  then show ?thesis
    unfolding r in_sync_def list_all_iff using other this_key by auto
qed

lemma fold_upd_other:
  "k \<notin> set ks \<Longrightarrow> fold (\<lambda>k m. m(k \<mapsto> f k)) ks m0 k = m0 k"
  by (induction ks arbitrary: m0) simp_all

lemma slots_fold_snapshot:
  "k \<in> set ks \<Longrightarrow> fold (\<lambda>k m. m(k \<mapsto> f k)) ks m0 k = Some (f k)"
proof (induction ks arbitrary: m0)
  case Nil
  then show ?case by simp
next
  case (Cons a ks)
  show ?case
  proof (cases "k \<in> set ks")
    case True
    then show ?thesis using Cons.IH by simp
  next
    case False
    then have ka: "k = a" using Cons.prems by simp
    have "fold (\<lambda>k m. m(k \<mapsto> f k)) ks (m0(a \<mapsto> f a)) a = (m0(a \<mapsto> f a)) a"
      by (rule fold_upd_other) (use False ka in simp)
    then show ?thesis
      unfolding ka by (simp only: fold_simps o_apply fun_upd_same)
  qed
qed

lemma combineStores_in_sync: "in_sync (combineStores ks sts)"
proof -
  have "slots (agg (combineStores ks sts)) k = Some (snapshot (sts k))" if "k \<in> set ks" for k
    using that by (simp add: combineStores_def slots_fold_snapshot)
  then show ?thesis
    by (simp add: in_sync_def list_all_iff snapshot_def combineStores_def)
qed

lemma combineStores_members_ok:
  "\<forall>k. listeners (sts k) = [] \<Longrightarrow> members_ok (combineStores ks sts)"
  by (simp add: members_ok_def combineStores_def)

lemma world_exec_keeps:
  assumes "members_ok w"
  shows "members_ok (world_exec c w)"
proof (cases c)
  case (MemberSet k v)
  then show ?thesis using members_ok_member_set [OF assms] by simp
next
  case (CombinedSubscribe sub options)
  then show ?thesis using Combined_subscribe_keeps(1) [OF assms] by simp
next
  case (CombinedUnsubscribe n)
  then show ?thesis using members_ok_settles [OF assms settles_Combined_unsubscribe] by simp
next
  case CombinedRead
  then show ?thesis using assms by simp
qed

lemma world_run_in_sync:
  assumes "members_ok w" and "in_sync w" and "mutations_attached cs w"
  shows "in_sync (world_run cs w) \<and> members_ok (world_run cs w)"
  using assms
proof (induction cs arbitrary: w)
  case Nil
  then show ?case by simp
next
  case (Cons c cs)
  have ok': "members_ok (world_exec c w)"
    using Cons.prems(1) by (rule world_exec_keeps)
  have sync': "in_sync (world_exec c w)" and att': "mutations_attached cs (world_exec c w)"
  proof -
    show "in_sync (world_exec c w)"
    proof (cases c)
      case (MemberSet k v)
      then show ?thesis
        using in_sync_member_set [OF Cons.prems(1,2)] Cons.prems(3) by simp
    next
      case (CombinedSubscribe sub options)
      then show ?thesis
        using in_sync_Combined_subscribe [OF Cons.prems(1,2)] by simp
    next
      case (CombinedUnsubscribe n)
      then show ?thesis
        using in_sync_settles [OF Cons.prems(2) settles_Combined_unsubscribe] by simp
    next
      case CombinedRead
      then show ?thesis using Cons.prems(2) by simp
    qed
    show "mutations_attached cs (world_exec c w)"
      using Cons.prems(3) by (cases c) simp_all
  qed
  show ?case
    using Cons.IH [OF ok' sync' att'] by simp
qed











lemma world_run_members_ok:
  "members_ok w \<Longrightarrow> members_ok (world_run cs w)"
  by (induction cs arbitrary: w) (simp_all add: world_exec_keeps)

section \<open>Claims about the store\<close>

lemma watched_counter_eq:
  "watched_counter =
     \<lparr>current = counter_init, version = 0, listeners = [0],
      closures = [\<lparr>selector = count, eq = (=), prev = 0, subscriber = (\<lambda>tr v. [])\<rparr>],
      trace = []\<rparr>"
  by (simp add: watched_counter_def subscribe_def createStore_def Let_def counter_init_def)

text \<open>
  Claim C1. When the function passed to \<^verbatim>\<open>update\<close>, \<^verbatim>\<open>compute\<close> or \<^verbatim>\<open>batch\<close> throws
  \<open>e\<close>, the call throws \<open>e\<close> and leaves the store as it was: the same value, version,
  listeners and trace, so no listener has been notified. For \<^verbatim>\<open>batch\<close> this covers a
  callback that throws after some of its \<^verbatim>\<open>apply\<close> calls went through. Both stores.
\<close>

theorem thrown_callback_leaves_store:
  "(reducer (current st) payload = Inl e \<longrightarrow>
      update reducer payload st = (Inl e, st) \<and> StoreImpl_update reducer payload st = (Inl e, st))
   \<and> (fn (current st) = Inl e \<longrightarrow>
      compute fn st = (Inl e, st) \<and> StoreImpl_compute fn st = (Inl e, st))
   \<and> (run_callback cb (current st) = Inl e \<longrightarrow>
      batch cb st = (Inl e, st) \<and> StoreImpl_batch cb st = (Inl e, st))"
  by (simp add: update_def StoreImpl_update_def compute_def StoreImpl_compute_def
      batch_def StoreImpl_batch_def)

theorem thrown_callback_leaves_store_witness:
  "update failing 1 watched_counter = (Inl ''boom'', watched_counter)
   \<and> StoreImpl_update failing 1 watched_counter = (Inl ''boom'', watched_counter)
   \<and> compute (\<lambda>p. Inl ''boom'') watched_counter = (Inl ''boom'', watched_counter)
   \<and> StoreImpl_compute (\<lambda>p. Inl ''boom'') watched_counter = (Inl ''boom'', watched_counter)
   \<and> batch add_then_throw watched_counter = (Inl ''boom'', watched_counter)
   \<and> StoreImpl_batch add_then_throw watched_counter = (Inl ''boom'', watched_counter)"
  using thrown_callback_leaves_store [where reducer = failing and payload = 1
      and st = watched_counter and e = "''boom''" and fn = "\<lambda>p. Inl ''boom''"
      and cb = add_then_throw]
  by (simp add: failing_def add_then_throw_def add_def)

text \<open>
  Claim C2. A batch callback that returns normally after the calls
  \<open>apply (r\<^sub>1, p\<^sub>1), \<dots>, apply (r\<^sub>N, p\<^sub>N)\<close>, whose sequential application to the current value
  yields \<open>v\<close>, makes \<^verbatim>\<open>batch\<close> return \<open>v\<close> and leave the store that one notification pass
  leaves from the store with value \<open>v\<close> and the version one higher: the same store as a
  single \<^verbatim>\<open>set(v)\<close>, whatever \<open>N\<close> is. Both stores. In \<^verbatim>\<open>StoreImpl\<close> that pass calls
  the \<^verbatim>\<open>notify\<close> closure of each registered listener once.
\<close>

theorem batch_commits_once:
  assumes "run_callback cb (current st) = Inr w"
    and "apply_in_order (current st) (applied cb (current st)) = Inr v"
  shows "batch cb st = (Inr v, notifyListeners (st\<lparr>current := v, version := version st + 1\<rparr>))
    \<and> StoreImpl_batch cb st
        = (Inr v, StoreImpl_notifyListeners (st\<lparr>current := v, version := version st + 1\<rparr>))
    \<and> current (snd (batch cb st)) = v \<and> version (snd (batch cb st)) = version st + 1
    \<and> current (snd (StoreImpl_batch cb st)) = v
    \<and> version (snd (StoreImpl_batch cb st)) = version st + 1
    \<and> batch cb st = set_store v st \<and> StoreImpl_batch cb st = StoreImpl_set v st
    \<and> notified (added st (snd (StoreImpl_batch cb st))) = listeners st"
proof -
  have wv: "w = v"
    by (rule run_callback_applied [OF assms(2) assms(1)])
  have a: "batch cb st = (Inr v, notifyListeners (st\<lparr>current := v, version := version st + 1\<rparr>))"
    using assms(1) wv by (simp add: batch_def Let_def)
  have b: "StoreImpl_batch cb st
        = (Inr v, StoreImpl_notifyListeners (st\<lparr>current := v, version := version st + 1\<rparr>))"
    using assms(1) wv by (simp add: StoreImpl_batch_def Let_def StoreImpl_guard)
  have c: "notified (added st (snd (StoreImpl_batch cb st))) = listeners st"
    using StoreImpl_pass_notifies_snapshot [of "st\<lparr>current := v, version := version st + 1\<rparr>"]
    by (simp add: b added_def)
  show ?thesis
    using c by (simp add: a b set_store_eq StoreImpl_set_eq)
qed

theorem batch_commits_once_witness:
  "batch two_adds watched_counter = set_store (counter_init\<lparr>count := 3\<rparr>) watched_counter
   \<and> StoreImpl_batch two_adds watched_counter
       = StoreImpl_set (counter_init\<lparr>count := 3\<rparr>) watched_counter
   \<and> version (snd (batch two_adds watched_counter)) = version watched_counter + 1
   \<and> version (snd (StoreImpl_batch two_adds watched_counter)) = version watched_counter + 1
   \<and> length (applied two_adds counter_init) = 2"
proof -
  have c: "current watched_counter = counter_init"
    by (simp add: watched_counter_eq)
  have h1: "run_callback two_adds (current watched_counter) = Inr (counter_init\<lparr>count := 3\<rparr>)"
    by (simp add: c two_adds_def add_def counter_init_def)
  have h2: "apply_in_order (current watched_counter) (applied two_adds (current watched_counter))
      = Inr (counter_init\<lparr>count := 3\<rparr>)"
    by (simp add: c two_adds_def add_def counter_init_def)
  have n: "length (applied two_adds counter_init) = 2"
    by (simp add: two_adds_def add_def)
  show ?thesis
    using batch_commits_once [OF h1 h2] n by blast
qed

text \<open>
  Claim C3. A new store has version 0. \<^verbatim>\<open>set(nxt)\<close> returns \<open>nxt\<close>, makes it the value and
  raises the version by exactly 1; so do \<^verbatim>\<open>update\<close> and \<^verbatim>\<open>compute\<close> when the function
  returns \<open>nxt\<close> on the current value, and \<^verbatim>\<open>batch\<close>, once, when its callback leaves
  \<open>nxt\<close>. When the function throws, value and version stay. A call that is no mutation entry
  point (\<^verbatim>\<open>read\<close>, \<^verbatim>\<open>snapshot\<close>, \<^verbatim>\<open>effect\<close>, \<^verbatim>\<open>subscribe\<close>, an unsubscribe handle)
  changes neither. So a call changes the version exactly when it is a mutation entry point
  that returns, and along any sequence of calls the version never decreases. Both stores.
\<close>

theorem version_counts_successful_mutations:
  "version (createStore init :: ('t, 'r) store) = 0
   \<and> version (StoreImpl init :: ('t, 'r) store) = 0
   \<and> (fst (set_store nxt (st :: ('t, 'r) store)) = Inr nxt
        \<and> current (snd (set_store nxt st)) = nxt
        \<and> version (snd (set_store nxt st)) = version st + 1)
   \<and> (fst (StoreImpl_set nxt st) = Inr nxt
        \<and> current (snd (StoreImpl_set nxt st)) = nxt
        \<and> version (snd (StoreImpl_set nxt st)) = version st + 1)
   \<and> (reducer (current st) payload = Inr nxt \<longrightarrow>
        fst (update reducer payload st) = Inr nxt
        \<and> current (snd (update reducer payload st)) = nxt
        \<and> version (snd (update reducer payload st)) = version st + 1
        \<and> fst (StoreImpl_update reducer payload st) = Inr nxt
        \<and> current (snd (StoreImpl_update reducer payload st)) = nxt
        \<and> version (snd (StoreImpl_update reducer payload st)) = version st + 1)
   \<and> (reducer (current st) payload = Inl e \<longrightarrow>
        update reducer payload st = (Inl e, st) \<and> StoreImpl_update reducer payload st = (Inl e, st))
   \<and> (fn (current st) = Inr nxt \<longrightarrow>
        fst (compute fn st) = Inr nxt
        \<and> current (snd (compute fn st)) = nxt
        \<and> version (snd (compute fn st)) = version st + 1
        \<and> fst (StoreImpl_compute fn st) = Inr nxt
        \<and> current (snd (StoreImpl_compute fn st)) = nxt
        \<and> version (snd (StoreImpl_compute fn st)) = version st + 1)
   \<and> (fn (current st) = Inl e \<longrightarrow>
        compute fn st = (Inl e, st) \<and> StoreImpl_compute fn st = (Inl e, st))
   \<and> (run_callback cb (current st) = Inr nxt \<longrightarrow>
        fst (batch cb st) = Inr nxt
        \<and> current (snd (batch cb st)) = nxt
        \<and> version (snd (batch cb st)) = version st + 1
        \<and> fst (StoreImpl_batch cb st) = Inr nxt
        \<and> current (snd (StoreImpl_batch cb st)) = nxt
        \<and> version (snd (StoreImpl_batch cb st)) = version st + 1)
   \<and> (run_callback cb (current st) = Inl e \<longrightarrow>
        batch cb st = (Inl e, st) \<and> StoreImpl_batch cb st = (Inl e, st))
   \<and> (\<not> is_mutation c \<longrightarrow>
        version (snd (exec c st)) = version st \<and> current (snd (exec c st)) = current st
        \<and> version (snd (StoreImpl_exec c st)) = version st
        \<and> current (snd (StoreImpl_exec c st)) = current st)
   \<and> version (snd (exec c st))
       = version st + (if is_mutation c \<and> \<not> threw (fst (exec c st)) then 1 else 0)
   \<and> version (snd (StoreImpl_exec c st))
       = version st + (if is_mutation c \<and> \<not> threw (fst (StoreImpl_exec c st)) then 1 else 0)
   \<and> version st \<le> version (run cs st) \<and> version st \<le> version (StoreImpl_run cs st)"
proof -
  have new: "version (createStore init :: ('t, 'r) store) = 0"
    "version (StoreImpl init :: ('t, 'r) store) = 0"
    by (simp_all add: createStore_def StoreImpl_def)
  have s: "fst (set_store nxt st) = Inr nxt \<and> current (snd (set_store nxt st)) = nxt
      \<and> version (snd (set_store nxt st)) = version st + 1"
    "fst (StoreImpl_set nxt st) = Inr nxt \<and> current (snd (StoreImpl_set nxt st)) = nxt
      \<and> version (snd (StoreImpl_set nxt st)) = version st + 1"
    by (simp_all add: set_store_eq StoreImpl_set_eq)
  have u: "fst (update reducer payload st) = Inr nxt
        \<and> current (snd (update reducer payload st)) = nxt
        \<and> version (snd (update reducer payload st)) = version st + 1
        \<and> fst (StoreImpl_update reducer payload st) = Inr nxt
        \<and> current (snd (StoreImpl_update reducer payload st)) = nxt
        \<and> version (snd (StoreImpl_update reducer payload st)) = version st + 1"
    if "reducer (current st) payload = Inr nxt"
    using that by (simp add: update_def StoreImpl_update_def Let_def)
  have u': "update reducer payload st = (Inl e, st) \<and> StoreImpl_update reducer payload st = (Inl e, st)"
    if "reducer (current st) payload = Inl e"
    using that by (simp add: update_def StoreImpl_update_def)
  have c: "fst (compute fn st) = Inr nxt
        \<and> current (snd (compute fn st)) = nxt
        \<and> version (snd (compute fn st)) = version st + 1
        \<and> fst (StoreImpl_compute fn st) = Inr nxt
        \<and> current (snd (StoreImpl_compute fn st)) = nxt
        \<and> version (snd (StoreImpl_compute fn st)) = version st + 1"
    if "fn (current st) = Inr nxt"
    using that by (simp add: compute_def StoreImpl_compute_def Let_def)
  have c': "compute fn st = (Inl e, st) \<and> StoreImpl_compute fn st = (Inl e, st)"
    if "fn (current st) = Inl e"
    using that by (simp add: compute_def StoreImpl_compute_def)
  have b: "fst (batch cb st) = Inr nxt
        \<and> current (snd (batch cb st)) = nxt
        \<and> version (snd (batch cb st)) = version st + 1
        \<and> fst (StoreImpl_batch cb st) = Inr nxt
        \<and> current (snd (StoreImpl_batch cb st)) = nxt
        \<and> version (snd (StoreImpl_batch cb st)) = version st + 1"
    if "run_callback cb (current st) = Inr nxt"
    using that by (simp add: batch_def StoreImpl_batch_def Let_def)
  have b': "batch cb st = (Inl e, st) \<and> StoreImpl_batch cb st = (Inl e, st)"
    if "run_callback cb (current st) = Inl e"
    using that by (simp add: batch_def StoreImpl_batch_def)
  note rest = exec_not_mutation [of c st] exec_version [of c st] StoreImpl_exec_version [of c st]
    run_version_mono [of st cs] StoreImpl_run_version_mono [of st cs]
  show ?thesis
    using new s u u' c c' b b' rest by blast
qed


theorem version_counts_successful_mutations_witness:
  "fst (update add 2 watched_counter) = Inr (counter_init\<lparr>count := 2\<rparr>)
   \<and> current (snd (update add 2 watched_counter)) = counter_init\<lparr>count := 2\<rparr>
   \<and> version (snd (update add 2 watched_counter)) = 1
   \<and> current (snd (StoreImpl_update add 2 watched_counter)) = counter_init\<lparr>count := 2\<rparr>
   \<and> version (snd (StoreImpl_update add 2 watched_counter)) = 1
   \<and> update failing 2 watched_counter = (Inl ''boom'', watched_counter)
   \<and> StoreImpl_update failing 2 watched_counter = (Inl ''boom'', watched_counter)
   \<and> current (snd (compute double (snd (update add 2 watched_counter))))
       = counter_init\<lparr>count := 4\<rparr>
   \<and> version (snd (compute double (snd (update add 2 watched_counter)))) = 2
   \<and> compute (\<lambda>p. Inl ''boom'') watched_counter = (Inl ''boom'', watched_counter)
   \<and> current (snd (batch two_adds watched_counter)) = counter_init\<lparr>count := 3\<rparr>
   \<and> version (snd (batch two_adds watched_counter)) = 1
   \<and> current (snd (StoreImpl_batch two_adds watched_counter)) = counter_init\<lparr>count := 3\<rparr>
   \<and> version (snd (StoreImpl_batch two_adds watched_counter)) = 1
   \<and> batch add_then_throw watched_counter = (Inl ''boom'', watched_counter)
   \<and> current (snd (set_store (counter_init\<lparr>count := 7\<rparr>) watched_counter))
       = counter_init\<lparr>count := 7\<rparr>
   \<and> version (snd (set_store (counter_init\<lparr>count := 7\<rparr>) watched_counter)) = 1
   \<and> version (snd (exec (Subscribe count (\<lambda>tr v. []) None :: (CounterState, int, int) call)
         watched_counter)) = 0"
proof -
  let ?two = "counter_init\<lparr>count := 2\<rparr>"
  let ?s2 = "snd (update add 2 watched_counter)"
  have cur: "current watched_counter = counter_init" and v: "version watched_counter = 0"
    by (simp_all add: watched_counter_eq)
  have h1: "add (current watched_counter) 2 = Inr ?two"
    by (simp add: cur add_def counter_init_def)
  have h2: "failing (current watched_counter) 2 = Inl ''boom''"
    by (simp add: failing_def)
  have h3: "(\<lambda>p :: CounterState. Inl ''boom'' :: exn + CounterState) (current watched_counter) = Inl ''boom''"
    by simp
  have h4: "run_callback two_adds (current watched_counter) = Inr (counter_init\<lparr>count := 3\<rparr>)"
    by (simp add: cur two_adds_def add_def counter_init_def)
  have h5: "run_callback add_then_throw (current watched_counter) = Inl ''boom''"
    by (simp add: cur add_then_throw_def add_def)
  have h6: "\<not> is_mutation (Subscribe count (\<lambda>tr v. []) None :: (CounterState, int, int) call)"
    by simp
  note t1 = version_counts_successful_mutations [where st = watched_counter and reducer = add
      and payload = 2 and nxt = ?two and fn = "\<lambda>p. Inl ''boom''" and e = "''boom''"
      and cb = add_then_throw and c = "Subscribe count (\<lambda>tr v. []) None" and cs = "[]"
      and init = counter_init]
  have p1: "fst (update add 2 watched_counter) = Inr ?two
      \<and> current ?s2 = ?two \<and> version ?s2 = version watched_counter + 1
      \<and> current (snd (StoreImpl_update add 2 watched_counter)) = ?two
      \<and> version (snd (StoreImpl_update add 2 watched_counter)) = version watched_counter + 1
      \<and> compute (\<lambda>p. Inl ''boom'') watched_counter = (Inl ''boom'', watched_counter)
      \<and> batch add_then_throw watched_counter = (Inl ''boom'', watched_counter)
      \<and> version (snd (exec (Subscribe count (\<lambda>tr v. []) None :: (CounterState, int, int) call)
            watched_counter)) = version watched_counter"
    using t1 h1 h3 h5 h6 by blast
  note t2 = version_counts_successful_mutations [where st = watched_counter and reducer = failing
      and payload = 2 and nxt = "counter_init\<lparr>count := 3\<rparr>" and fn = "\<lambda>p. Inl ''boom''"
      and e = "''boom''" and cb = two_adds and c = Read and cs = "[]" and init = counter_init]
  have p2: "update failing 2 watched_counter = (Inl ''boom'', watched_counter)
      \<and> StoreImpl_update failing 2 watched_counter = (Inl ''boom'', watched_counter)
      \<and> current (snd (batch two_adds watched_counter)) = counter_init\<lparr>count := 3\<rparr>
      \<and> version (snd (batch two_adds watched_counter)) = version watched_counter + 1
      \<and> current (snd (StoreImpl_batch two_adds watched_counter)) = counter_init\<lparr>count := 3\<rparr>
      \<and> version (snd (StoreImpl_batch two_adds watched_counter)) = version watched_counter + 1"
    using t2 h2 h4 by blast
  have h7: "double (current ?s2) = Inr (counter_init\<lparr>count := 4\<rparr>)"
    using p1 by (simp add: double_def counter_init_def)
  note t3 = version_counts_successful_mutations [where st = ?s2 and reducer = failing
      and payload = 2 and nxt = "counter_init\<lparr>count := 4\<rparr>" and fn = double
      and e = "''boom''" and cb = two_adds and c = Read and cs = "[]" and init = counter_init]
  have p3: "current (snd (compute double ?s2)) = counter_init\<lparr>count := 4\<rparr>
      \<and> version (snd (compute double ?s2)) = version ?s2 + 1"
    using t3 h7 by blast
  note t4 = version_counts_successful_mutations [where st = watched_counter and reducer = failing
      and payload = 2 and nxt = "counter_init\<lparr>count := 7\<rparr>" and fn = double
      and e = "''boom''" and cb = two_adds and c = Read and cs = "[]" and init = counter_init]
  have p4: "current (snd (set_store (counter_init\<lparr>count := 7\<rparr>) watched_counter))
        = counter_init\<lparr>count := 7\<rparr>
      \<and> version (snd (set_store (counter_init\<lparr>count := 7\<rparr>) watched_counter))
        = version watched_counter + 1"
    using t4 by blast
  show ?thesis
    using p1 p2 p3 p4 by (simp add: v)
qed

text \<open>
  What a subscription does. \<^verbatim>\<open>subscribe\<close> builds a closure with the given selector and
  subscriber, the selected value of the current state as \<^verbatim>\<open>prev\<close>, and the given equality
  or, by default, \<^verbatim>\<open>Object.is\<close>. Whenever this closure is run, it applies the selector to the
  state of that moment and calls the subscriber, once and with the new selected value, if and
  only if \<^verbatim>\<open>eq(prev, next)\<close> is false; exactly then \<^verbatim>\<open>prev\<close> becomes the new selected
  value. In \<^verbatim>\<open>StoreImpl\<close> the same holds of every registered subscription for the pass
  of a \<^verbatim>\<open>set\<close>, whatever the other listeners do.
\<close>

lemma subscriber_fires_iff_selected_differs:
  "(case subscribe sel sub options (st0 :: ('t, 'r) store) of
      (h, st1) \<Rightarrow>
        h = length (closures st0) \<and> last (listeners st1) = h
        \<and> closures st1 ! h =
            \<lparr>selector = sel,
             eq = (case options of None \<Rightarrow> (=)
                   | Some opts \<Rightarrow> (case opt_eq opts of None \<Rightarrow> (=) | Some f \<Rightarrow> f)),
             prev = sel (current st0), subscriber = sub\<rparr>)
   \<and> (n < length (closures (st :: ('t, 'r) store)) \<longrightarrow>
        (let c = closures st ! n; nxt = selector c (current st); st' = notify n st
         in fired n (added st st') = (if eq c (prev c) nxt then [] else [nxt])
            \<and> closures st' ! n = (if eq c (prev c) nxt then c else c\<lparr>prev := nxt\<rparr>)))
   \<and> (registered_ok st \<and> n \<in> set (listeners st) \<longrightarrow>
        (let c = closures st ! n; nxt = selector c v; st' = snd (StoreImpl_set v st)
         in fired n (added st st') = (if eq c (prev c) nxt then [] else [nxt])
            \<and> closures st' ! n = (if eq c (prev c) nxt then c else c\<lparr>prev := nxt\<rparr>)))"
proof -
  have a: "case subscribe sel sub options st0 of
      (h, st1) \<Rightarrow>
        h = length (closures st0) \<and> last (listeners st1) = h
        \<and> closures st1 ! h =
            \<lparr>selector = sel,
             eq = (case options of None \<Rightarrow> (=)
                   | Some opts \<Rightarrow> (case opt_eq opts of None \<Rightarrow> (=) | Some f \<Rightarrow> f)),
             prev = sel (current st0), subscriber = sub\<rparr>"
    by (simp add: subscribe_def Let_def)
  have b: "let c = closures st ! n; nxt = selector c (current st); st' = notify n st
         in fired n (added st st') = (if eq c (prev c) nxt then [] else [nxt])
            \<and> closures st' ! n = (if eq c (prev c) nxt then c else c\<lparr>prev := nxt\<rparr>)"
    if "n < length (closures st)"
    using that by (simp add: Let_def added_notify closures_notify)
  have c: "let c = closures st ! n; nxt = selector c v; st' = snd (StoreImpl_set v st)
         in fired n (added st st') = (if eq c (prev c) nxt then [] else [nxt])
            \<and> closures st' ! n = (if eq c (prev c) nxt then c else c\<lparr>prev := nxt\<rparr>)"
    if ok: "registered_ok st" and n: "n \<in> set (listeners st)"
  proof -
    let ?s1 = "st\<lparr>current := v, version := version st + 1\<rparr>"
    have d: "distinct (listeners ?s1)" and len: "n < length (closures ?s1)"
      using ok n by (simp_all add: registered_ok_def list_all_iff)
    have tr: "added ?s1 x = added st x" for x
      by (simp add: added_def)
    have "fired n (added ?s1 (fold notify (listeners ?s1) ?s1))
        = (if \<not> eq (closures st ! n) (prev (closures st ! n)) (selector (closures st ! n) v)
           then [selector (closures st ! n) v] else [])"
      and "closures (fold notify (listeners ?s1) ?s1) ! n
        = (if \<not> eq (closures st ! n) (prev (closures st ! n)) (selector (closures st ! n) v)
           then (closures st ! n)\<lparr>prev := selector (closures st ! n) v\<rparr>
           else closures st ! n)"
      using fold_notify_one [OF d len] n by simp_all
    then have "fired n (added st (StoreImpl_notifyListeners ?s1))
        = (if \<not> eq (closures st ! n) (prev (closures st ! n)) (selector (closures st ! n) v)
           then [selector (closures st ! n) v] else [])"
      and "closures (StoreImpl_notifyListeners ?s1) ! n
        = (if \<not> eq (closures st ! n) (prev (closures st ! n)) (selector (closures st ! n) v)
           then (closures st ! n)\<lparr>prev := selector (closures st ! n) v\<rparr>
           else closures st ! n)"
      unfolding tr StoreImpl_notifyListeners_def by simp_all
    then show ?thesis
      unfolding StoreImpl_set_eq Let_def snd_conv by simp
  qed
  show ?thesis
    using a b c by blast
qed

lemma dedups_by_equality:
  "fired 0 (added watched_counter
      (snd (StoreImpl_set \<lparr>count = 0, label = ''x''\<rparr> watched_counter))) = []
   \<and> fired 0 (added watched_counter
      (snd (StoreImpl_set \<lparr>count = 1, label = ''y''\<rparr> watched_counter))) = [1]
   \<and> fired 0 (added watched_counter (notify 0 watched_counter)) = []
   \<and> fired 0 (trace (run [Set \<lparr>count = 0, label = ''x''\<rparr>, Set \<lparr>count = 1, label = ''y''\<rparr>,
        Set \<lparr>count = 1, label = ''z''\<rparr>] watched_counter)) = [1]
   \<and> fired 0 (trace (StoreImpl_run [Set \<lparr>count = 0, label = ''x''\<rparr>,
        Set \<lparr>count = 1, label = ''y''\<rparr>, Set \<lparr>count = 1, label = ''z''\<rparr>] watched_counter)) = [1]"
proof -
  have ok: "registered_ok watched_counter \<and> 0 \<in> set (listeners watched_counter)"
    and len: "0 < length (closures watched_counter)"
    by (simp_all add: watched_counter_eq registered_ok_def)
  have c: "closures watched_counter ! 0
      = \<lparr>selector = count, eq = (=), prev = 0, subscriber = (\<lambda>tr v. [])\<rparr>"
    and cur: "current watched_counter = counter_init"
    by (simp_all add: watched_counter_eq)
  have x: "fired 0 (added watched_counter
      (snd (StoreImpl_set \<lparr>count = 0, label = ''x''\<rparr> watched_counter))) = []"
    using subscriber_fires_iff_selected_differs [where st = watched_counter and n = 0
        and v = "\<lparr>count = 0, label = ''x''\<rparr>" and st0 = watched_counter
        and sel = count and sub = "\<lambda>tr v. []" and options = None] ok
    by (simp add: c Let_def)
  have y: "fired 0 (added watched_counter
      (snd (StoreImpl_set \<lparr>count = 1, label = ''y''\<rparr> watched_counter))) = [1]"
    using subscriber_fires_iff_selected_differs [where st = watched_counter and n = 0
        and v = "\<lparr>count = 1, label = ''y''\<rparr>" and st0 = watched_counter
        and sel = count and sub = "\<lambda>tr v. []" and options = None] ok
    by (simp add: c Let_def)
  have z: "fired 0 (added watched_counter (notify 0 watched_counter)) = []"
    using subscriber_fires_iff_selected_differs [where st = watched_counter and n = 0
        and v = "\<lparr>count = 1, label = ''y''\<rparr>" and st0 = watched_counter
        and sel = count and sub = "\<lambda>tr v. []" and options = None] len
    by (simp add: c cur Let_def counter_init_def)
  have r: "fired 0 (trace (run [Set \<lparr>count = 0, label = ''x''\<rparr>, Set \<lparr>count = 1, label = ''y''\<rparr>,
        Set \<lparr>count = 1, label = ''z''\<rparr>] watched_counter)) = [1]"
    by (simp add: run_def watched_counter_eq set_store_def Let_def notifyListeners_def
        notifyListeners_from.simps notify_def call_subscriber_def)
  have r': "fired 0 (trace (StoreImpl_run [Set \<lparr>count = 0, label = ''x''\<rparr>,
        Set \<lparr>count = 1, label = ''y''\<rparr>, Set \<lparr>count = 1, label = ''z''\<rparr>] watched_counter)) = [1]"
    by (simp add: StoreImpl_run_def watched_counter_eq StoreImpl_set_def Let_def
        StoreImpl_notifyListeners_def notify_def call_subscriber_def)
  show ?thesis
    using x y z r r' by blast
qed

text \<open>
  In \<^verbatim>\<open>StoreImpl\<close> the pass of a \<^verbatim>\<open>set\<close> calls the \<^verbatim>\<open>notify\<close> closures of exactly
  the subscriptions registered when it starts, in registration order, whatever the
  subscribers unsubscribe meanwhile; in a store reached from a new one, each exactly once.
\<close>

lemma StoreImpl_pass_reaches_every_listener:
  "notified (added st (snd (StoreImpl_set v st))) = listeners st"
proof -
  let ?s1 = "st\<lparr>current := v, version := version st + 1\<rparr>"
  have "notified (added ?s1 (StoreImpl_notifyListeners ?s1)) = listeners ?s1"
    by (rule StoreImpl_pass_notifies_snapshot)
  then show ?thesis
    by (simp add: StoreImpl_set_eq added_def)
qed

lemma count_list_distinct:
  "distinct xs \<Longrightarrow> count_list xs x = (if x \<in> set xs then 1 else 0)"
  by (induction xs) auto

lemma StoreImpl_pass_exactly_once:
  "count_list (notified (added (StoreImpl_run cs (StoreImpl init))
       (snd (StoreImpl_set v (StoreImpl_run cs (StoreImpl init)))))) n
     = (if n \<in> set (listeners (StoreImpl_run cs (StoreImpl init))) then 1 else 0)"
proof -
  have "registered_ok (StoreImpl_run cs (StoreImpl init))"
    by (rule registered_ok_StoreImpl_run) (rule registered_ok_new)
  then have "distinct (listeners (StoreImpl_run cs (StoreImpl init)))"
    by (simp add: registered_ok_def)
  then show ?thesis
    by (simp add: StoreImpl_pass_reaches_every_listener count_list_distinct)
qed

text \<open>
  Claim C4 fails in the closure-based store, where a pass can leave a subscription out. Two
  subscriptions to a store holding 0, the first of which unsubscribes itself when called.
  In the pass of \<^verbatim>\<open>set(1)\<close> the second subscription is registered and its \<^verbatim>\<open>eq(prev, next)\<close>
  is false, but its selector is not applied, its subscriber is not called and its
  \<^verbatim>\<open>prev\<close> stays 0. In \<^verbatim>\<open>StoreImpl\<close> the subscriber is called with 1 and \<^verbatim>\<open>prev\<close>
  becomes 1.
\<close>

theorem skipped_subscription_misses_changed_value:
  "(let s0 = createStore (0::int) :: (int, int) store;
       s1 = snd (subscribe (\<lambda>x. x) (\<lambda>tr v. [0]) None s0);
       s2 = snd (subscribe (\<lambda>x. x) (\<lambda>tr v. []) None s1);
       s3 = snd (set_store 1 s2);
       s3' = snd (StoreImpl_set 1 s2);
       c = closures s2 ! 1
   in last (listeners s2) = 1 \<and> current s3 = 1
     \<and> \<not> eq c (prev c) (selector c (current s3))
     \<and> fired 1 (added s2 s3) = [] \<and> prev (closures s3 ! 1) = 0
     \<and> fired 1 (added s2 s3') = [1] \<and> prev (closures s3' ! 1) = 1)"
proof -
  define s2 :: "(int, int) store" where
    "s2 = snd (subscribe (\<lambda>x. x) (\<lambda>tr v. []) None
             (snd (subscribe (\<lambda>x. x) (\<lambda>tr v. [0]) None (createStore 0))))"
  have s2: "s2 = \<lparr>current = 0, version = 0, listeners = [0, 1],
      closures = [\<lparr>selector = (\<lambda>x. x), eq = (=), prev = 0, subscriber = (\<lambda>tr v. [0])\<rparr>,
                  \<lparr>selector = (\<lambda>x. x), eq = (=), prev = 0, subscriber = (\<lambda>tr v. [])\<rparr>],
      trace = []\<rparr>"
    by (simp add: s2_def createStore_def subscribe_def Let_def)
  have a: "trace (snd (set_store 1 s2)) = [Notified 0, Fired 0 1]"
    and a': "prev (closures (snd (set_store 1 s2)) ! 1) = 0"
    and a'': "current (snd (set_store 1 s2)) = 1"
    by (simp_all add: s2 set_store_def Let_def notifyListeners_def notifyListeners_from.simps
        notify_def call_subscriber_def unsubscribe_def)
  have b: "trace (snd (StoreImpl_set 1 s2)) = [Notified 0, Fired 0 1, Notified 1, Fired 1 1]"
    and b': "prev (closures (snd (StoreImpl_set 1 s2)) ! 1) = 1"
    by (simp_all add: s2 StoreImpl_set_def Let_def StoreImpl_notifyListeners_def
        notify_def call_subscriber_def unsubscribe_def)
  have c: "trace s2 = []" and d: "last (listeners s2) = 1"
    and e: "closures s2 ! 1 = \<lparr>selector = (\<lambda>x. x), eq = (=), prev = 0, subscriber = (\<lambda>tr v. [])\<rparr>"
    by (simp_all add: s2)
  have "last (listeners s2) = 1 \<and> current (snd (set_store 1 s2)) = 1
     \<and> \<not> eq (closures s2 ! 1) (prev (closures s2 ! 1))
           (selector (closures s2 ! 1) (current (snd (set_store 1 s2))))
     \<and> fired 1 (added s2 (snd (set_store 1 s2))) = []
     \<and> prev (closures (snd (set_store 1 s2)) ! 1) = 0
     \<and> fired 1 (added s2 (snd (StoreImpl_set 1 s2))) = [1]
     \<and> prev (closures (snd (StoreImpl_set 1 s2)) ! 1) = 1"
    using a a' a'' b b' c d e by (simp add: added_def)
  then show ?thesis
    unfolding Let_def s2_def .
qed

text \<open>
  Claim C5 fails in the closure-based store. Two subscriptions to a store holding 0, the
  first of which unsubscribes itself when called; \<^verbatim>\<open>set(1)\<close> then runs a pass in which
  the first listener splices itself out of the array under the iterator, the second listener
  moves to index 0, and the loop ends without having called it: it was registered when the
  pass started, its selected value changed, and it is neither notified nor fired.
  \<^verbatim>\<open>StoreImpl\<close> calls both on the same input.
\<close>

theorem splice_skips_next_listener:
  "(let s0 = createStore (0::int) :: (int, int) store;
       s1 = snd (subscribe (\<lambda>x. x) (\<lambda>tr v. [0]) None s0);
       s2 = snd (subscribe (\<lambda>x. x) (\<lambda>tr v. []) None s1);
       s3 = snd (set_store 1 s2);
       s3' = snd (StoreImpl_set 1 s2)
   in listeners s2 = [0, 1]
     \<and> notified (added s2 s3) = [0] \<and> trace s3 = [Notified 0, Fired 0 1]
     \<and> notified (added s2 s3') = [0, 1]
     \<and> trace s3' = [Notified 0, Fired 0 1, Notified 1, Fired 1 1])"
proof -
  define s2 :: "(int, int) store" where
    "s2 = snd (subscribe (\<lambda>x. x) (\<lambda>tr v. []) None
             (snd (subscribe (\<lambda>x. x) (\<lambda>tr v. [0]) None (createStore 0))))"
  have s2: "s2 = \<lparr>current = 0, version = 0, listeners = [0, 1],
      closures = [\<lparr>selector = (\<lambda>x. x), eq = (=), prev = 0, subscriber = (\<lambda>tr v. [0])\<rparr>,
                  \<lparr>selector = (\<lambda>x. x), eq = (=), prev = 0, subscriber = (\<lambda>tr v. [])\<rparr>],
      trace = []\<rparr>"
    by (simp add: s2_def createStore_def subscribe_def Let_def)
  have a: "trace (snd (set_store 1 s2)) = [Notified 0, Fired 0 1]"
    by (simp add: s2 set_store_def Let_def notifyListeners_def notifyListeners_from.simps
        notify_def call_subscriber_def unsubscribe_def)
  have b: "trace (snd (StoreImpl_set 1 s2)) = [Notified 0, Fired 0 1, Notified 1, Fired 1 1]"
    by (simp add: s2 StoreImpl_set_def Let_def StoreImpl_notifyListeners_def
        notify_def call_subscriber_def unsubscribe_def)
  have c: "trace s2 = []" and d: "listeners s2 = [0, 1]"
    by (simp_all add: s2)
  have "listeners s2 = [0, 1]
     \<and> notified (added s2 (snd (set_store 1 s2))) = [0]
     \<and> trace (snd (set_store 1 s2)) = [Notified 0, Fired 0 1]
     \<and> notified (added s2 (snd (StoreImpl_set 1 s2))) = [0, 1]
     \<and> trace (snd (StoreImpl_set 1 s2)) = [Notified 0, Fired 0 1, Notified 1, Fired 1 1]"
    using a b c d by (simp add: added_def)
  then show ?thesis
    unfolding Let_def s2_def .
qed

section \<open>Claims about transaction scopes\<close>

text \<open>
  Claim C6. After any sequence of staging calls (\<^verbatim>\<open>read\<close>, \<^verbatim>\<open>apply\<close>, \<^verbatim>\<open>compute\<close>,
  \<^verbatim>\<open>set\<close>, throwing or not) on a fresh scope, \<^verbatim>\<open>rollback()\<close> returns the baseline
  snapshotted at creation and leaves the scope as it was created, so that its \<^verbatim>\<open>read()\<close>
  is the baseline again, and the store exactly as it was when the scope was created: same
  value, same version, same trace, hence no notification. Any store implementation.
\<close>

theorem rollback_restores_baseline_store_untouched:
  assumes "list_all is_staged cs"
  shows "tx_exec S Rollback (tx_run S cs (beginTransaction S st, st))
     = (Inr (Store_snapshot S st), (beginTransaction S st, st))"
proof -
  obtain tx where w: "tx_run S cs (beginTransaction S st, st) = (tx, st)"
    and i: "tx_initial tx = Store_snapshot S st"
    using tx_run_staged [OF assms, of S "beginTransaction S st" st]
    by (cases "tx_run S cs (beginTransaction S st, st)") (simp add: beginTransaction_def)
  have "tx_exec S Rollback (tx, st) = (Inr (Store_snapshot S st), (beginTransaction S st, st))"
    using i by (cases tx) (simp add: rollback_def beginTransaction_def)
  then show ?thesis
    unfolding w .
qed

theorem rollback_restores_baseline_store_untouched_witness:
  "tx_exec class_based Rollback
      (tx_run class_based [TxApply add 10] (beginTransaction class_based watched_counter, watched_counter))
     = (Inr counter_init, (beginTransaction class_based watched_counter, watched_counter))
   \<and> tx_read (fst (tx_run class_based [TxApply add 10]
        (beginTransaction class_based watched_counter, watched_counter)))
     = counter_init\<lparr>count := 10\<rparr>
   \<and> tx_read (beginTransaction class_based watched_counter) = counter_init"
proof -
  have s: "Store_snapshot class_based watched_counter = counter_init"
    by (simp add: class_based_def snapshot_def watched_counter_eq)
  have h: "list_all is_staged [TxApply add 10]"
    by simp
  have r: "tx_read (fst (tx_run class_based [TxApply add 10]
        (beginTransaction class_based watched_counter, watched_counter)))
     = counter_init\<lparr>count := 10\<rparr>"
    by (simp add: tx_run_def tx_apply_def tx_read_def beginTransaction_def s add_def
        counter_init_def)
  have b: "tx_read (beginTransaction class_based watched_counter) = counter_init"
    by (simp add: tx_read_def beginTransaction_def s)
  show ?thesis
    using rollback_restores_baseline_store_untouched [OF h, of class_based watched_counter] r b
    by (simp add: s)
qed

text \<open>
  Claim C7. After \<open>K\<close> staged \<^verbatim>\<open>apply\<close> calls whose reducers, applied in order to the
  baseline, yield \<open>v\<close>, the pending value is \<open>v\<close>, and \<^verbatim>\<open>commit()\<close> returns \<open>v\<close> and
  leaves the store that one notification pass leaves from the store with value \<open>v\<close> and the
  version one higher: the store of a single \<^verbatim>\<open>set(v)\<close>, whatever \<open>K\<close> is and whatever
  state the store is in when the commit happens. Both stores. In \<^verbatim>\<open>StoreImpl\<close> that pass
  calls the \<^verbatim>\<open>notify\<close> closure of each registered listener once.
\<close>

theorem commit_sets_the_fold_once:
  assumes "apply_in_order (current st0) rps = Inr v"
  shows "(let tx = fst (tx_run closure_based (map (\<lambda>(r, p). TxApply r p) rps)
                    (beginTransaction closure_based st0, st0))
          in tx_read tx = v
           \<and> tx_exec closure_based Commit (tx, st)
               = (Inr v, (tx, notifyListeners (st\<lparr>current := v, version := version st + 1\<rparr>)))
           \<and> snd (snd (tx_exec closure_based Commit (tx, st))) = snd (set_store v st))
       \<and> (let tx = fst (tx_run class_based (map (\<lambda>(r, p). TxApply r p) rps)
                    (beginTransaction class_based st0, st0))
          in tx_read tx = v
           \<and> tx_exec class_based Commit (tx, st)
               = (Inr v, (tx, StoreImpl_notifyListeners (st\<lparr>current := v, version := version st + 1\<rparr>)))
           \<and> snd (snd (tx_exec class_based Commit (tx, st))) = snd (StoreImpl_set v st)
           \<and> notified (added st (snd (snd (tx_exec class_based Commit (tx, st))))) = listeners st)"
proof -
  have a: "tx_next (fst (tx_run closure_based (map (\<lambda>(r, p). TxApply r p) rps)
      (beginTransaction closure_based st0, st0))) = v"
    by (rule tx_run_applies) (simp add: beginTransaction_def closure_based_def snapshot_def assms)
  have b: "tx_next (fst (tx_run class_based (map (\<lambda>(r, p). TxApply r p) rps)
      (beginTransaction class_based st0, st0))) = v"
    by (rule tx_run_applies) (simp add: beginTransaction_def class_based_def snapshot_def assms)
  have c: "notified (added st
      (StoreImpl_notifyListeners (st\<lparr>current := v, version := version st + 1\<rparr>))) = listeners st"
    using StoreImpl_pass_notifies_snapshot [of "st\<lparr>current := v, version := version st + 1\<rparr>"]
    by (simp add: added_def)
  show ?thesis
    using c
    by (simp add: Let_def tx_read_def a b commit_closure_based commit_class_based
        set_store_eq StoreImpl_set_eq)
qed

theorem commit_sets_the_fold_once_witness:
  "tx_exec class_based Commit
      (fst (tx_run class_based [TxApply add 1, TxApply add 2]
             (beginTransaction class_based watched_counter, watched_counter)), watched_counter)
     = (Inr (counter_init\<lparr>count := 3\<rparr>),
        (fst (tx_run class_based [TxApply add 1, TxApply add 2]
             (beginTransaction class_based watched_counter, watched_counter)),
         StoreImpl_notifyListeners
           (watched_counter\<lparr>current := counter_init\<lparr>count := 3\<rparr>,
              version := version watched_counter + 1\<rparr>)))"
proof -
  have h: "apply_in_order (current watched_counter) [(add, 1), (add, 2)]
      = Inr (counter_init\<lparr>count := 3\<rparr>)"
    by (simp add: watched_counter_eq add_def counter_init_def)
  show ?thesis
    using commit_sets_the_fold_once [OF h, of watched_counter]
    by (simp add: Let_def)
qed

text \<open>
  Claim C10. A scope has no terminated state. In every state of the scope and the store,
  \<^verbatim>\<open>commit()\<close> returns (the pending value) and does one more \<^verbatim>\<open>set\<close> of the pending
  value on the store, leaving the scope as it is; \<^verbatim>\<open>rollback()\<close> returns the baseline and
  only resets the pending value to it. The baseline never changes. Along any sequence of
  scope calls, in any order, the store's version grows by the number of commits in it.
  After a commit, \<^verbatim>\<open>apply\<close> and \<^verbatim>\<open>compute\<close> work on the pending value that was
  committed, \<^verbatim>\<open>set\<close> replaces it and \<^verbatim>\<open>read\<close> returns it; after a rollback they work
  on the baseline; a commit after a commit or after a rollback sets the store again.
  Both stores.
\<close>

theorem commit_and_rollback_never_end_a_scope:
  "tx_exec closure_based Commit (tx, st)
     = (Inr (tx_next tx), (tx, snd (set_store (tx_next tx) st)))
   \<and> tx_exec class_based Commit (tx, st)
     = (Inr (tx_next tx), (tx, snd (StoreImpl_set (tx_next tx) st)))
   \<and> tx_exec S Rollback (tx, s) = (Inr (tx_initial tx), (tx\<lparr>tx_next := tx_initial tx\<rparr>, s))
   \<and> tx_initial (fst (tx_run S cs (tx, s))) = tx_initial tx
   \<and> version (snd (tx_run closure_based cs (tx, st))) = version st + length (filter is_commit cs)
   \<and> version (snd (tx_run class_based cs (tx, st))) = version st + length (filter is_commit cs)
   \<and> (r (tx_next tx) p = Inr n \<longrightarrow>
        tx_exec closure_based (TxApply r p) (snd (tx_exec closure_based Commit (tx, st)))
          = (Inr n, (tx\<lparr>tx_next := n\<rparr>, snd (set_store (tx_next tx) st)))
        \<and> tx_exec class_based (TxApply r p) (snd (tx_exec class_based Commit (tx, st)))
          = (Inr n, (tx\<lparr>tx_next := n\<rparr>, snd (StoreImpl_set (tx_next tx) st))))
   \<and> (fn (tx_next tx) = Inr n \<longrightarrow>
        tx_exec closure_based (TxCompute fn) (snd (tx_exec closure_based Commit (tx, st)))
          = (Inr n, (tx\<lparr>tx_next := n\<rparr>, snd (set_store (tx_next tx) st)))
        \<and> tx_exec class_based (TxCompute fn) (snd (tx_exec class_based Commit (tx, st)))
          = (Inr n, (tx\<lparr>tx_next := n\<rparr>, snd (StoreImpl_set (tx_next tx) st))))
   \<and> tx_exec closure_based (TxSet v) (snd (tx_exec closure_based Commit (tx, st)))
        = (Inr v, (tx\<lparr>tx_next := v\<rparr>, snd (set_store (tx_next tx) st)))
   \<and> tx_exec class_based (TxSet v) (snd (tx_exec class_based Commit (tx, st)))
        = (Inr v, (tx\<lparr>tx_next := v\<rparr>, snd (StoreImpl_set (tx_next tx) st)))
   \<and> fst (tx_exec closure_based TxRead (snd (tx_exec closure_based Commit (tx, st))))
        = Inr (tx_next tx)
   \<and> fst (tx_exec class_based TxRead (snd (tx_exec class_based Commit (tx, st))))
        = Inr (tx_next tx)
   \<and> (r (tx_initial tx) p = Inr n \<longrightarrow>
        tx_exec S (TxApply r p) (snd (tx_exec S Rollback (tx, s)))
          = (Inr n, (tx\<lparr>tx_next := n\<rparr>, s)))
   \<and> (fn (tx_initial tx) = Inr n \<longrightarrow>
        tx_exec S (TxCompute fn) (snd (tx_exec S Rollback (tx, s)))
          = (Inr n, (tx\<lparr>tx_next := n\<rparr>, s)))
   \<and> tx_exec S (TxSet v) (snd (tx_exec S Rollback (tx, s))) = (Inr v, (tx\<lparr>tx_next := v\<rparr>, s))
   \<and> fst (tx_exec S TxRead (snd (tx_exec S Rollback (tx, s)))) = Inr (tx_initial tx)
   \<and> tx_exec closure_based Commit (snd (tx_exec closure_based Rollback (tx, st)))
        = (Inr (tx_initial tx),
           (tx\<lparr>tx_next := tx_initial tx\<rparr>, snd (set_store (tx_initial tx) st)))
   \<and> tx_exec class_based Commit (snd (tx_exec class_based Rollback (tx, st)))
        = (Inr (tx_initial tx),
           (tx\<lparr>tx_next := tx_initial tx\<rparr>, snd (StoreImpl_set (tx_initial tx) st)))
   \<and> tx_exec closure_based Commit (snd (tx_exec closure_based Commit (tx, st)))
        = (Inr (tx_next tx),
           (tx, snd (set_store (tx_next tx) (snd (set_store (tx_next tx) st)))))
   \<and> tx_exec class_based Commit (snd (tx_exec class_based Commit (tx, st)))
        = (Inr (tx_next tx),
           (tx, snd (StoreImpl_set (tx_next tx) (snd (StoreImpl_set (tx_next tx) st)))))"
  using tx_run_initial [of S cs "(tx, s)"]
  by (simp add: commit_closure_based commit_class_based set_store_eq StoreImpl_set_eq
      rollback_def tx_apply_def tx_compute_def tx_set_def tx_read_def
      tx_run_version_closure tx_run_version_class)


theorem commit_and_rollback_never_end_a_scope_witness:
  "tx_exec class_based (TxApply add 1)
      (snd (tx_exec class_based Commit
        (\<lparr>tx_initial = counter_init, tx_next = counter_init\<lparr>count := 5\<rparr>\<rparr>, watched_counter)))
     = (Inr (counter_init\<lparr>count := 6\<rparr>),
        (\<lparr>tx_initial = counter_init, tx_next = counter_init\<lparr>count := 6\<rparr>\<rparr>,
         snd (StoreImpl_set (counter_init\<lparr>count := 5\<rparr>) watched_counter)))
   \<and> tx_exec class_based (TxCompute double)
      (snd (tx_exec class_based Commit
        (\<lparr>tx_initial = counter_init, tx_next = counter_init\<lparr>count := 5\<rparr>\<rparr>, watched_counter)))
     = (Inr (counter_init\<lparr>count := 10\<rparr>),
        (\<lparr>tx_initial = counter_init, tx_next = counter_init\<lparr>count := 10\<rparr>\<rparr>,
         snd (StoreImpl_set (counter_init\<lparr>count := 5\<rparr>) watched_counter)))
   \<and> tx_exec class_based (TxApply add 1)
      (snd (tx_exec class_based Rollback
        (\<lparr>tx_initial = counter_init, tx_next = counter_init\<lparr>count := 5\<rparr>\<rparr>, watched_counter)))
     = (Inr (counter_init\<lparr>count := 1\<rparr>),
        (\<lparr>tx_initial = counter_init, tx_next = counter_init\<lparr>count := 1\<rparr>\<rparr>, watched_counter))
   \<and> tx_exec class_based (TxCompute double)
      (snd (tx_exec class_based Rollback
        (\<lparr>tx_initial = counter_init\<lparr>count := 4\<rparr>, tx_next = counter_init\<rparr>, watched_counter)))
     = (Inr (counter_init\<lparr>count := 8\<rparr>),
        (\<lparr>tx_initial = counter_init\<lparr>count := 4\<rparr>, tx_next = counter_init\<lparr>count := 8\<rparr>\<rparr>,
         watched_counter))
   \<and> version (snd (tx_run class_based [Commit, Commit, Rollback, TxApply add 1, Commit]
      (beginTransaction class_based watched_counter, watched_counter))) = 3
   \<and> version (snd (tx_run closure_based [Commit, Commit, Rollback, TxApply add 1, Commit]
      (beginTransaction closure_based watched_counter, watched_counter))) = 3"
proof -
  let ?tx = "\<lparr>tx_initial = counter_init, tx_next = counter_init\<lparr>count := 5\<rparr>\<rparr>"
  let ?ty = "\<lparr>tx_initial = counter_init\<lparr>count := 4\<rparr>, tx_next = counter_init\<rparr>"
  have h1: "add (tx_next ?tx) 1 = Inr (counter_init\<lparr>count := 6\<rparr>)"
    by (simp add: add_def counter_init_def)
  have h2: "double (tx_next ?tx) = Inr (counter_init\<lparr>count := 10\<rparr>)"
    by (simp add: double_def counter_init_def)
  have h3: "add (tx_initial ?tx) 1 = Inr (counter_init\<lparr>count := 1\<rparr>)"
    by (simp add: add_def counter_init_def)
  have h4: "double (tx_initial ?ty) = Inr (counter_init\<lparr>count := 8\<rparr>)"
    by (simp add: double_def counter_init_def)
  have p1: "tx_exec class_based (TxApply add 1) (snd (tx_exec class_based Commit (?tx, watched_counter)))
     = (Inr (counter_init\<lparr>count := 6\<rparr>),
        (?tx\<lparr>tx_next := counter_init\<lparr>count := 6\<rparr>\<rparr>,
         snd (StoreImpl_set (tx_next ?tx) watched_counter)))"
    using commit_and_rollback_never_end_a_scope [where tx = ?tx and st = watched_counter
        and r = add and p = 1 and n = "counter_init\<lparr>count := 6\<rparr>" and fn = double
        and S = class_based and s = watched_counter and cs = "[]"
        and v = counter_init] h1
    by blast
  have p2: "tx_exec class_based (TxCompute double) (snd (tx_exec class_based Commit (?tx, watched_counter)))
     = (Inr (counter_init\<lparr>count := 10\<rparr>),
        (?tx\<lparr>tx_next := counter_init\<lparr>count := 10\<rparr>\<rparr>,
         snd (StoreImpl_set (tx_next ?tx) watched_counter)))"
    using commit_and_rollback_never_end_a_scope [where tx = ?tx and st = watched_counter
        and r = add and p = 1 and n = "counter_init\<lparr>count := 10\<rparr>" and fn = double
        and S = class_based and s = watched_counter and cs = "[]"
        and v = counter_init] h2
    by blast
  have p3: "tx_exec class_based (TxApply add 1) (snd (tx_exec class_based Rollback (?tx, watched_counter)))
     = (Inr (counter_init\<lparr>count := 1\<rparr>),
        (?tx\<lparr>tx_next := counter_init\<lparr>count := 1\<rparr>\<rparr>, watched_counter))"
    using commit_and_rollback_never_end_a_scope [where tx = ?tx and st = watched_counter
        and r = add and p = 1 and n = "counter_init\<lparr>count := 1\<rparr>" and fn = double
        and S = class_based and s = watched_counter and cs = "[]"
        and v = counter_init] h3
    by blast
  have p4: "tx_exec class_based (TxCompute double) (snd (tx_exec class_based Rollback (?ty, watched_counter)))
     = (Inr (counter_init\<lparr>count := 8\<rparr>),
        (?ty\<lparr>tx_next := counter_init\<lparr>count := 8\<rparr>\<rparr>, watched_counter))"
    using commit_and_rollback_never_end_a_scope [where tx = ?ty and st = watched_counter
        and r = add and p = 1 and n = "counter_init\<lparr>count := 8\<rparr>" and fn = double
        and S = class_based and s = watched_counter and cs = "[]"
        and v = counter_init] h4
    by blast
  let ?t0 = "beginTransaction class_based watched_counter :: CounterState Transaction"
  let ?cs = "[Commit, Commit, Rollback, TxApply add 1, Commit] :: (CounterState, int) tx_call list"
  have q: "version (snd (tx_run class_based ?cs (?t0, watched_counter)))
        = version watched_counter + length (filter is_commit ?cs)
      \<and> version (snd (tx_run closure_based ?cs (?t0, watched_counter)))
        = version watched_counter + length (filter is_commit ?cs)"
    using commit_and_rollback_never_end_a_scope [where st = watched_counter
        and tx = ?t0 and cs = ?cs
        and S = class_based and s = watched_counter and r = add and p = 1 and fn = double
        and n = counter_init and v = counter_init]
    by blast
  have b: "beginTransaction closure_based watched_counter = ?t0"
    by (simp add: beginTransaction_def class_based_def closure_based_def)
  have p5: "version (snd (tx_run class_based ?cs
        (beginTransaction class_based watched_counter, watched_counter))) = 3
      \<and> version (snd (tx_run closure_based ?cs
        (beginTransaction closure_based watched_counter, watched_counter))) = 3"
    using q unfolding b by (simp add: watched_counter_eq)
  show ?thesis
    using p1 p2 p3 p4 p5 by (simp del: tx_exec.simps)
qed

section \<open>Claims about the composite view\<close>

lemma two_stores_unobserved: "\<forall>k. listeners (two_stores k) = []"
  by (simp add: two_stores_def StoreImpl_def)



lemmas world_eval =
  Combined_subscribe_def Let_def two_combined_def combineStores_def attach_def
  subscribe_member two_stores_def StoreImpl_def snapshot_def member_set_def
  member_notifyListeners_def member_notify_def member_changed_def notifyAll_def
  notifyAll_from.simps Combined_notify_def Combined_call_subscriber_def
  Combined_unsubscribe_def detach_def unsubscribe_def

lemma test_attached:
  "mutations_attached
     [CombinedSubscribe (\<lambda>a. []) (Some \<lparr>opt_eq = None, fireImmediately = True\<rparr>),
      MemberSet ''sa'' ''a2'', MemberSet ''sb'' ''by''] two_combined"
  by (simp add: world_eval)

lemma test_delivered:
  "map (\<lambda>(n, a). (n, ref a, slots a ''sa'', slots a ''sb''))
     (delivered (world_run
       [CombinedSubscribe (\<lambda>a. []) (Some \<lparr>opt_eq = None, fireImmediately = True\<rparr>),
        MemberSet ''sa'' ''a2'', MemberSet ''sb'' ''by''] two_combined))
   = [(0, 0, Some ''a1'', Some ''bx''), (0, 1, Some ''a2'', Some ''bx''), (0, 2, Some ''a2'', Some ''by'')]"
  by (simp add: world_eval)

lemma reattach_stale:
  "(let w = world_run [CombinedSubscribe (\<lambda>a. []) None, CombinedUnsubscribe 0,
              MemberSet ''sa'' ''a2'', CombinedSubscribe (\<lambda>a. []) None] two_combined
    in \<not> in_sync w \<and> childUnsubs w \<noteq> None \<and> subscribers w = [1]
       \<and> slots (Combined_read w) ''sa'' = Some ''a1'' \<and> current (stores w ''sa'') = ''a2'')"
  by (simp add: world_eval in_sync_def Combined_read_def)



text \<open>
  Without a subscriber the member listeners do not exist. The two stores of the test suite
  combined and never subscribed to; after \<^verbatim>\<open>sa.set\<close> the aggregate still holds the value
  \<^verbatim>\<open>sa\<close> had at construction.
\<close>

lemma aggregate_stale_without_subscriber:
  "\<not> in_sync (world_run [MemberSet ''sa'' ''a2''] two_combined)
   \<and> slots (Combined_read (world_run [MemberSet ''sa'' ''a2''] two_combined)) ''sa'' = Some ''a1''
   \<and> current (stores (world_run [MemberSet ''sa'' ''a2''] two_combined) ''sa'') = ''a2''"
  by (simp add: in_sync_def Combined_read_def member_set_def two_combined_def combineStores_def
      two_stores_def StoreImpl_def snapshot_def Let_def)

text \<open>
  As long as every member mutation happens while the member listeners are attached, the
  aggregate follows: starting from \<^verbatim>\<open>combineStores\<close> over stores that have no other
  subscriber, after any such sequence of calls of the composite's \<^verbatim>\<open>subscribe\<close>, of its
  unsubscribe handles and of member mutations, \<^verbatim>\<open>read()\<close> holds for every key the current
  value of that member.
\<close>

lemma aggregate_in_sync_while_attached:
  assumes "\<forall>k. listeners (sts k) = []"
    and "mutations_attached cs (combineStores ks sts)"
  shows "in_sync (world_run cs (combineStores ks sts))"
  using world_run_in_sync [OF combineStores_members_ok [OF assms(1)] combineStores_in_sync assms(2)]
  by simp

lemma combine_test_in_sync:
  "in_sync (world_run
     [CombinedSubscribe (\<lambda>a. []) (Some \<lparr>opt_eq = None, fireImmediately = True\<rparr>),
      MemberSet ''sa'' ''a2'', MemberSet ''sb'' ''by''] two_combined)"
  using aggregate_in_sync_while_attached
    [OF two_stores_unobserved test_attached [unfolded two_combined_def]]
  by (simp add: two_combined_def)

text \<open>
  Claim C9 fails. \<^verbatim>\<open>attach\<close> subscribes to the members without reading them again, so
  what a member was set to while no listener was attached stays out of the aggregate after
  the composite is subscribed to. The two stores of the test suite combined, \<^verbatim>\<open>sa.set\<close>,
  then \<^verbatim>\<open>subscribe\<close> with \<^verbatim>\<open>fireImmediately\<close>: the member listeners are attached, the
  subscriber is registered and has been called, with an aggregate whose slot \<^verbatim>\<open>sa\<close> is the
  value from construction, which \<^verbatim>\<open>read()\<close> returns as well, while \<^verbatim>\<open>sa\<close> holds the new
  value. A later \<^verbatim>\<open>sb.set\<close> notifies the subscriber with the slot \<^verbatim>\<open>sa\<close> still stale.
\<close>

theorem attach_does_not_refresh_aggregate:
  "(let w = world_run
              [MemberSet ''sa'' ''a2'',
               CombinedSubscribe (\<lambda>a. []) (Some \<lparr>opt_eq = None, fireImmediately = True\<rparr>)]
              two_combined;
        w' = world_run [MemberSet ''sb'' ''by''] w
    in childUnsubs w = Some [(''sa'', 0), (''sb'', 0)] \<and> subscribers w = [0]
       \<and> current (stores w ''sa'') = ''a2''
       \<and> slots (Combined_read w) ''sa'' = Some ''a1''
       \<and> map (\<lambda>(n, a). (n, slots a ''sa'', slots a ''sb'')) (delivered w)
           = [(0, Some ''a1'', Some ''bx'')]
       \<and> \<not> in_sync w
       \<and> map (\<lambda>(n, a). (n, slots a ''sa'', slots a ''sb'')) (delivered w')
           = [(0, Some ''a1'', Some ''bx''), (0, Some ''a1'', Some ''by'')]
       \<and> slots (Combined_read w') ''sa'' = Some ''a1''
       \<and> current (stores w' ''sa'') = ''a2'')"
  by (simp add: world_eval in_sync_def Combined_read_def)

end
